theory Spec2Isabelle
  imports Main
begin

section \<open>How a Go call ends\<close>

text \<open>
  A call of the Go code either returns or panics (a nil pointer dereference, an index out
  of range). The recursive graph traversals are modelled with a bound on the recursion
  depth; \<open>OutOfFuel\<close> says that the bound was reached, and the theorems below show that it
  never is with the bound the callers pass.
\<close>

datatype 'a outcome = Returned 'a | Panic | OutOfFuel

section \<open>The environment of the build cache\<close>

text \<open>
  The cache (package \<open>builder\<close>) talks to the file system, the clock and three library
  packages. Their answers are the fields of one record, so that every call of the Go
  code is a lookup in it and "nothing was modified in between" means "the same record".

  A Go \<open>error\<close> is a value of \<open>os_error\<close>: the flag is what \<open>os.IsNotExist\<close>
  answers for it, the string is its message. A result \<open>(x, err)\<close> with \<open>err\<close> possibly
  \<open>nil\<close> carries \<open>os_error option\<close>; a call that returns either a value or an error is a
  sum with \<open>Inl\<close> for the error.
\<close>

datatype os_error = OsError (IsNotExist: bool) (Error: string)

text \<open>\<open>fmt.Errorf("<prefix>: %w", err)\<close>: \<open>os.IsNotExist\<close> does not look through the
  wrapping and answers false for the result.\<close>

definition Errorf :: "string \<Rightarrow> os_error \<Rightarrow> os_error" where
  "Errorf prefix err = OsError False (prefix @ '': '' @ Error err)"

text \<open>What \<open>os.Open\<close> followed by \<open>io.Copy\<close> into the hasher yields for a path.\<close>

datatype file_read = OpenError os_error | CopyError os_error | Bytes string

record CacheEntry =
  entry_Path :: string
  entry_Hash :: string
  entry_Timestamp :: int
  entry_Dependencies :: "string list"
  entry_CommandHash :: string
  entry_ObjectFile :: string
  entry_CompilationTime :: int

text \<open>
  The entries map \<open>map[string]*CacheEntry\<close> is \<open>None\<close> when it is nil (the zero value
  \<open>BuildCache{}\<close>, and what \<open>json.Unmarshal\<close> leaves for a document without an entries
  object) and a partial function to entries otherwise. Reading a nil map finds nothing;
  assigning to it panics. The pointers stored in the map are taken to be non-nil, as
  \<open>PutEntry\<close> stores them. The pointer \<open>c.BuildCache\<close> may be nil (\<open>None\<close>).
\<close>

record BuildCache =
  bc_Version :: string
  bc_Entries :: "(string \<rightharpoonup> CacheEntry) option"
  bc_LastBuildTime :: int

text \<open>
  \<open>os_Stat p\<close> is the error of \<open>os.Stat(p)\<close> or the file's modification time in
  nanoseconds since the epoch (the only part of \<open>FileInfo\<close> the code reads);
  \<open>json_Unmarshal data\<close> is the value \<open>json.Unmarshal\<close> leaves in a fresh
  \<open>BuildCache{}\<close> together with its error.
\<close>

record env =
  os_Stat :: "string \<Rightarrow> os_error + int"
  os_MkdirAll :: "string \<Rightarrow> os_error option"
  os_ReadFile :: "string \<Rightarrow> os_error + string"
  os_OpenCopy :: "string \<Rightarrow> file_read"
  time_Now :: int
  filepath_Dir :: "string \<Rightarrow> string"
  filepath_Base :: "string \<Rightarrow> string"
  sha256_hex :: "string \<Rightarrow> string"
  json_Unmarshal :: "string \<Rightarrow> BuildCache \<times> os_error option"

text \<open>\<open>ModTime().Unix()\<close>: whole seconds, rounded down.\<close>

definition Unix :: "int \<Rightarrow> int" where
  "Unix t = t div 1000000000"

section \<open>The build cache\<close>

record Cache =
  cache_Path :: string
  cache_BuildCache :: "BuildCache option"
  cache_HashAlgorithm :: string

definition NewCache :: "string \<Rightarrow> Cache" where
  "NewCache cachePath =
     \<lparr>cache_Path = cachePath, cache_BuildCache = None, cache_HashAlgorithm = ''sha256''\<rparr>"

text \<open>
  The methods have the pointer receiver \<open>c *Cache\<close>: each one is modelled as returning
  the cache as the call leaves it, next to its Go results.
\<close>

definition Load :: "env \<Rightarrow> Cache \<Rightarrow> os_error option \<times> Cache" where
  "Load e c =
     (case os_MkdirAll e (filepath_Dir e (cache_Path c)) of
        Some err \<Rightarrow> (Some (Errorf ''failed to create cache directory'' err), c)
      | None \<Rightarrow>
         (case os_ReadFile e (cache_Path c) of
            Inl err \<Rightarrow>
              if IsNotExist err
              then (None, c\<lparr>cache_BuildCache :=
                      Some \<lparr>bc_Version = ''1.0'', bc_Entries = Some Map.empty,
                            bc_LastBuildTime = time_Now e\<rparr>\<rparr>)
              else (Some (Errorf ''failed to read cache file'' err), c)
          | Inr data \<Rightarrow>
              (case json_Unmarshal e data of
                 (bc, Some err) \<Rightarrow>
                   (Some (Errorf ''failed to parse cache file'' err),
                    c\<lparr>cache_BuildCache := Some bc\<rparr>)
               | (bc, None) \<Rightarrow> (None, c\<lparr>cache_BuildCache := Some bc\<rparr>))))"

definition GetEntry :: "Cache \<Rightarrow> string \<Rightarrow> CacheEntry option \<times> Cache" where
  "GetEntry c path =
     (case cache_BuildCache c of
        None \<Rightarrow> (None, c)
      | Some bc \<Rightarrow>
          (case bc_Entries bc of
             None \<Rightarrow> (None, c)
           | Some entries \<Rightarrow> (entries path, c)))"

text \<open>
  \<open>PutEntry\<close> creates the cache document, with an empty map, only when
  \<open>c.BuildCache\<close> is nil. The assignment \<open>c.BuildCache.Entries[entry.Path] = entry\<close>
  panics when the document is there and its map is nil.
\<close>

definition PutEntry :: "env \<Rightarrow> Cache \<Rightarrow> CacheEntry \<Rightarrow> Cache outcome" where
  "PutEntry e c entry =
     (let bc = (case cache_BuildCache c of
                  None \<Rightarrow> \<lparr>bc_Version = ''1.0'', bc_Entries = Some Map.empty,
                            bc_LastBuildTime = time_Now e\<rparr>
                | Some bc \<Rightarrow> bc)
      in case bc_Entries bc of
           None \<Rightarrow> Panic
         | Some entries \<Rightarrow>
             Returned (c\<lparr>cache_BuildCache :=
               Some (bc\<lparr>bc_Entries := Some (entries(entry_Path entry \<mapsto> entry))\<rparr>)\<rparr>))"

definition CalculateFileHash :: "env \<Rightarrow> Cache \<Rightarrow> string \<Rightarrow> (string \<times> os_error option) \<times> Cache" where
  "CalculateFileHash e c path =
     (case os_OpenCopy e path of
        OpenError err \<Rightarrow> (([], Some (Errorf ''failed to open file'' err)), c)
      | CopyError err \<Rightarrow> (([], Some (Errorf ''failed to hash file'' err)), c)
      | Bytes content \<Rightarrow> ((sha256_hex e content, None), c))"

text \<open>The hasher is fed the command, then each argument, with nothing in between.\<close>

definition CalculateCommandHash :: "env \<Rightarrow> Cache \<Rightarrow> string \<Rightarrow> string list \<Rightarrow> string" where
  "CalculateCommandHash e c command args = sha256_hex e (foldl (@) command args)"

text \<open>
  \<open>NeedsRebuild\<close> and the loop over its dependency list. The recursive call passes an
  empty list, so the recursion is one level deep.
\<close>

fun NeedsRebuild :: "env \<Rightarrow> Cache \<Rightarrow> string \<Rightarrow> string list \<Rightarrow> string \<Rightarrow> (bool \<times> os_error option) \<times> Cache"
  and NeedsRebuild_deps :: "env \<Rightarrow> Cache \<Rightarrow> CacheEntry \<Rightarrow> string list \<Rightarrow> (bool \<times> os_error option) \<times> Cache"
where
  "NeedsRebuild e c path dependencies commandHash =
     (case GetEntry c path of
        (None, c1) \<Rightarrow> ((True, None), c1)
      | (Some entry, c1) \<Rightarrow>
          (case os_Stat e path of
             Inl err \<Rightarrow>
               if IsNotExist err then ((True, None), c1)
               else ((True, Some (Errorf ''failed to stat file'' err)), c1)
           | Inr modTime \<Rightarrow>
               if Unix modTime \<noteq> entry_Timestamp entry then ((True, None), c1)
               else
                 (case CalculateFileHash e c1 path of
                    ((currentHash, Some err), c2) \<Rightarrow>
                      ((True, Some (Errorf ''failed to calculate hash'' err)), c2)
                  | ((currentHash, None), c2) \<Rightarrow>
                      if currentHash \<noteq> entry_Hash entry then ((True, None), c2)
                      else if commandHash \<noteq> entry_CommandHash entry then ((True, None), c2)
                      else NeedsRebuild_deps e c2 entry dependencies)))"
| "NeedsRebuild_deps e c entry [] = ((False, None), c)"
| "NeedsRebuild_deps e c entry (depPath # rest) =
     (case os_Stat e depPath of
        Inl err \<Rightarrow> ((True, None), c)
      | Inr depModTime \<Rightarrow>
          (case NeedsRebuild e c depPath [] [] of
             ((rebuild, err), c1) \<Rightarrow>
               if err \<noteq> None \<or> rebuild then ((True, err), c1)
               else if Unix depModTime > entry_Timestamp entry then ((True, None), c1)
               else NeedsRebuild_deps e c1 entry rest))"

declare NeedsRebuild.simps(1) [simp del]

definition UpdateEntry :: "env \<Rightarrow> Cache \<Rightarrow> string \<Rightarrow> string list \<Rightarrow> string \<Rightarrow> string \<Rightarrow> int \<Rightarrow> (os_error option \<times> Cache) outcome" where
  "UpdateEntry e c path dependencies commandHash objectFile compilationTime =
     (case os_Stat e path of
        Inl err \<Rightarrow> Returned (Some (Errorf ''failed to stat file'' err), c)
      | Inr modTime \<Rightarrow>
          (case CalculateFileHash e c path of
             ((hash, Some err), c1) \<Rightarrow>
               Returned (Some (Errorf ''failed to calculate hash'' err), c1)
           | ((hash, None), c1) \<Rightarrow>
               (case PutEntry e c1
                       \<lparr>entry_Path = path, entry_Hash = hash, entry_Timestamp = Unix modTime,
                        entry_Dependencies = dependencies, entry_CommandHash = commandHash,
                        entry_ObjectFile = objectFile, entry_CompilationTime = compilationTime\<rparr> of
                  Returned c2 \<Rightarrow> Returned (None, c2)
                | Panic \<Rightarrow> Panic
                | OutOfFuel \<Rightarrow> OutOfFuel)))"

section \<open>The dependency graph\<close>

text \<open>
  Package \<open>dependency\<close>. A \<open>*Node\<close> is represented by the ID of the node it points
  to: the graph stores every node under its own ID (\<open>AddNode\<close>), nothing in the package
  changes an ID, and \<open>AddDependency\<close> only ever appends pointers to nodes of the graph.
  So \<open>node_Dependencies\<close> and \<open>graph_EntryPoints\<close> are lists of IDs, \<open>dep.ID\<close> is
  the list element itself, and a change of a node is seen through every pointer to it.
  A node handed to \<open>AddNode\<close> may carry dependencies already (the field is public):
  they are IDs as well.
\<close>

datatype NodeType =
  NodeTypeSource | NodeTypeHeader | NodeTypeObject | NodeTypeLibrary | NodeTypeExecutable

record Node =
  node_ID :: string
  node_Type :: NodeType
  node_Path :: string
  node_Hash :: string
  node_Timestamp :: int
  node_Dependencies :: "string list"
  node_CommandHash :: string

record Graph =
  graph_Nodes :: "string \<rightharpoonup> Node"
  graph_EntryPoints :: "string list"

datatype graph_error =
  NodeAlreadyExists string
| SourceNodeNotFound string
| TargetNodeNotFound string
| WouldCreateCycle string string
| GraphHasCycles
| NodeNotFound string

definition NewGraph :: Graph where
  "NewGraph = \<lparr>graph_Nodes = Map.empty, graph_EntryPoints = []\<rparr>"

definition AddNode :: "Graph \<Rightarrow> Node \<Rightarrow> graph_error option \<times> Graph" where
  "AddNode g node =
     (if graph_Nodes g (node_ID node) \<noteq> None
      then (Some (NodeAlreadyExists (node_ID node)), g)
      else (None, g\<lparr>graph_Nodes := (graph_Nodes g)(node_ID node \<mapsto> node)\<rparr>))"

definition GetNode :: "Graph \<Rightarrow> string \<Rightarrow> Node option" where
  "GetNode g nodeID = graph_Nodes g nodeID"

text \<open>
  \<open>dfsHasCycle\<close> with the loop over the dependencies of its node. The maps
  \<open>visited\<close> and \<open>path\<close> (\<open>map[string]bool\<close>) are the sets of the keys they map to
  true. The first argument bounds the depth of the recursion. \<open>g.Nodes[nodeID]\<close> of
  an absent key is nil, and reading its \<open>Dependencies\<close> panics.
\<close>

fun dfsHasCycle :: "nat \<Rightarrow> Graph \<Rightarrow> string \<Rightarrow> string set \<times> string set \<Rightarrow> (bool \<times> string set \<times> string set) outcome"
  and dfsHasCycle_deps :: "nat \<Rightarrow> Graph \<Rightarrow> string list \<Rightarrow> string set \<times> string set \<Rightarrow> (bool \<times> string set \<times> string set) outcome"
where
  "dfsHasCycle 0 g nodeID (visited, path) = OutOfFuel"
| "dfsHasCycle (Suc n) g nodeID (visited, path) =
     (case graph_Nodes g nodeID of
        None \<Rightarrow> Panic
      | Some node \<Rightarrow>
          (case dfsHasCycle_deps n g (node_Dependencies node)
                  (insert nodeID visited, insert nodeID path) of
             Returned (found, visited', path') \<Rightarrow>
               if found then Returned (True, visited', path')
               else Returned (False, visited', path' - {nodeID})
           | Panic \<Rightarrow> Panic
           | OutOfFuel \<Rightarrow> OutOfFuel))"
| "dfsHasCycle_deps n g [] (visited, path) = Returned (False, visited, path)"
| "dfsHasCycle_deps n g (dep # deps) (visited, path) =
     (if dep \<notin> visited then
        (case dfsHasCycle n g dep (visited, path) of
           Returned (found, visited', path') \<Rightarrow>
             if found then Returned (True, visited', path')
             else dfsHasCycle_deps n g deps (visited', path')
         | Panic \<Rightarrow> Panic
         | OutOfFuel \<Rightarrow> OutOfFuel)
      else if dep \<in> path then Returned (True, visited, path)
      else dfsHasCycle_deps n g deps (visited, path))"

text \<open>
  \<open>hasCycle\<close> ranges over the map \<open>g.Nodes\<close>, in an order Go leaves open: the order is
  the argument \<open>keys\<close>, and the theorems hold for every enumeration of the keys. The depth
  bound is the number of nodes.
\<close>

fun hasCycle_nodes :: "nat \<Rightarrow> Graph \<Rightarrow> string list \<Rightarrow> string set \<times> string set \<Rightarrow> bool outcome" where
  "hasCycle_nodes n g [] (visited, path) = Returned False"
| "hasCycle_nodes n g (nodeID # rest) (visited, path) =
     (if nodeID \<notin> visited then
        (case dfsHasCycle n g nodeID (visited, path) of
           Returned (found, visited', path') \<Rightarrow>
             if found then Returned True else hasCycle_nodes n g rest (visited', path')
         | Panic \<Rightarrow> Panic
         | OutOfFuel \<Rightarrow> OutOfFuel)
      else hasCycle_nodes n g rest (visited, path))"

definition hasCycle :: "string list \<Rightarrow> Graph \<Rightarrow> bool outcome" where
  "hasCycle keys g = hasCycle_nodes (length keys) g keys ({}, {})"

text \<open>
  \<open>AddDependency\<close> appends the edge, asks \<open>hasCycle\<close>, and on a cycle cuts the last
  element off again.
\<close>

definition AddDependency :: "string list \<Rightarrow> Graph \<Rightarrow> string \<Rightarrow> string \<Rightarrow> (graph_error option \<times> Graph) outcome" where
  "AddDependency keys g fromID toID =
     (case graph_Nodes g fromID of
        None \<Rightarrow> Returned (Some (SourceNodeNotFound fromID), g)
      | Some fromNode \<Rightarrow>
          (case graph_Nodes g toID of
             None \<Rightarrow> Returned (Some (TargetNodeNotFound toID), g)
           | Some toNode \<Rightarrow>
               if toID \<in> set (node_Dependencies fromNode) then Returned (None, g)
               else
                 (let fromNode1 = fromNode\<lparr>node_Dependencies := node_Dependencies fromNode @ [toID]\<rparr>;
                      g1 = g\<lparr>graph_Nodes := (graph_Nodes g)(fromID \<mapsto> fromNode1)\<rparr>
                  in case hasCycle keys g1 of
                       Returned found \<Rightarrow>
                         if found
                         then Returned (Some (WouldCreateCycle fromID toID),
                                g1\<lparr>graph_Nodes := (graph_Nodes g1)(fromID \<mapsto>
                                  fromNode1\<lparr>node_Dependencies := butlast (node_Dependencies fromNode1)\<rparr>)\<rparr>)
                         else Returned (None, g1)
                     | Panic \<Rightarrow> Panic
                     | OutOfFuel \<Rightarrow> OutOfFuel)))"

text \<open>
  \<open>TopologicalSort\<close>: the post-order traversal \<open>dfs\<close> from the entry points, then from
  every node not yet visited (a second range over the map, with an order \<open>keys'\<close> of its
  own), and the reversal of the result. The result is the list of the IDs of the nodes.
\<close>

fun dfs :: "nat \<Rightarrow> Graph \<Rightarrow> string \<Rightarrow> string set \<times> string list \<Rightarrow> (string set \<times> string list) outcome"
  and dfs_deps :: "nat \<Rightarrow> Graph \<Rightarrow> string list \<Rightarrow> string set \<times> string list \<Rightarrow> (string set \<times> string list) outcome"
where
  "dfs 0 g nodeID (visited, result) = OutOfFuel"
| "dfs (Suc n) g nodeID (visited, result) =
     (case graph_Nodes g nodeID of
        None \<Rightarrow> Panic
      | Some node \<Rightarrow>
          (case dfs_deps n g (node_Dependencies node) (insert nodeID visited, result) of
             Returned (visited', result') \<Rightarrow> Returned (visited', result' @ [nodeID])
           | Panic \<Rightarrow> Panic
           | OutOfFuel \<Rightarrow> OutOfFuel))"
| "dfs_deps n g [] (visited, result) = Returned (visited, result)"
| "dfs_deps n g (dep # deps) (visited, result) =
     (if dep \<notin> visited then
        (case dfs n g dep (visited, result) of
           Returned (visited', result') \<Rightarrow> dfs_deps n g deps (visited', result')
         | Panic \<Rightarrow> Panic
         | OutOfFuel \<Rightarrow> OutOfFuel)
      else dfs_deps n g deps (visited, result))"

fun dfs_nodes :: "nat \<Rightarrow> Graph \<Rightarrow> string list \<Rightarrow> string set \<times> string list \<Rightarrow> (string set \<times> string list) outcome" where
  "dfs_nodes n g [] (visited, result) = Returned (visited, result)"
| "dfs_nodes n g (nodeID # rest) (visited, result) =
     (if nodeID \<notin> visited then
        (case dfs n g nodeID (visited, result) of
           Returned (visited', result') \<Rightarrow> dfs_nodes n g rest (visited', result')
         | Panic \<Rightarrow> Panic
         | OutOfFuel \<Rightarrow> OutOfFuel)
      else dfs_nodes n g rest (visited, result))"

definition TopologicalSort :: "string list \<Rightarrow> string list \<Rightarrow> Graph \<Rightarrow> (string list \<times> graph_error option) outcome" where
  "TopologicalSort keys keys' g =
     (case hasCycle keys g of
        Returned found \<Rightarrow>
          if found then Returned ([], Some GraphHasCycles)
          else
            (case dfs_nodes (length keys') g (graph_EntryPoints g) ({}, []) of
               Returned (visited, result) \<Rightarrow>
                 (case dfs_nodes (length keys') g keys' (visited, result) of
                    Returned (visited', result') \<Rightarrow> Returned (rev result', None)
                  | Panic \<Rightarrow> Panic
                  | OutOfFuel \<Rightarrow> OutOfFuel)
             | Panic \<Rightarrow> Panic
             | OutOfFuel \<Rightarrow> OutOfFuel)
      | Panic \<Rightarrow> Panic
      | OutOfFuel \<Rightarrow> OutOfFuel)"

definition GetBuildOrder :: "string list \<Rightarrow> string list \<Rightarrow> Graph \<Rightarrow> (string list \<times> graph_error option) outcome" where
  "GetBuildOrder keys keys' g = TopologicalSort keys keys' g"

definition MarkEntryPoint :: "Graph \<Rightarrow> string \<Rightarrow> graph_error option \<times> Graph" where
  "MarkEntryPoint g nodeID =
     (case graph_Nodes g nodeID of
        None \<Rightarrow> (Some (NodeNotFound nodeID), g)
      | Some node \<Rightarrow>
          if nodeID \<in> set (graph_EntryPoints g) then (None, g)
          else (None, g\<lparr>graph_EntryPoints := graph_EntryPoints g @ [nodeID]\<rparr>))"

text \<open>
  The edge relation of a graph, and what the model's representation of pointers
  requires: every dependency is a node of the graph. \<open>key_order g keys\<close> says that
  \<open>keys\<close> is one of the orders in which a range over \<open>g.Nodes\<close> may yield the keys.
\<close>

definition edges :: "Graph \<Rightarrow> (string \<times> string) set" where
  "edges g = {(a, b). \<exists>node. graph_Nodes g a = Some node \<and> b \<in> set (node_Dependencies node)}"

definition closed_graph :: "Graph \<Rightarrow> bool" where
  "closed_graph g \<longleftrightarrow> (\<forall>node \<in> ran (graph_Nodes g). set (node_Dependencies node) \<subseteq> dom (graph_Nodes g))"

definition key_order :: "Graph \<Rightarrow> string list \<Rightarrow> bool" where
  "key_order g keys \<longleftrightarrow> distinct keys \<and> set keys = dom (graph_Nodes g)"

text \<open>
  The graphs a caller can build from the empty graph with \<open>AddDependency\<close>,
  \<open>MarkEntryPoint\<close> and \<open>AddNode\<close> of nodes that carry no dependencies (what the
  builder passes), whatever order each range over the map takes.
\<close>

inductive built :: "Graph \<Rightarrow> bool" where
  built_NewGraph: "built NewGraph"
| built_AddNode: "built g \<Longrightarrow> node_Dependencies node = [] \<Longrightarrow> built (snd (AddNode g node))"
| built_AddDependency: "built g \<Longrightarrow> key_order g keys \<Longrightarrow>
     AddDependency keys g fromID toID = Returned (err, g') \<Longrightarrow> built g'"
| built_MarkEntryPoint: "built g \<Longrightarrow> built (snd (MarkEntryPoint g nodeID))"

text \<open>
  The invariant of the cycle check and what a call of it establishes, for the state
  (\<open>V\<close>, \<open>P\<close>) of the maps \<open>visited\<close> and \<open>path\<close> before the call: either a cycle
  was found and the graph has one, or the path is as before, the nodes \<open>S\<close> are
  finished and the invariant holds again.
\<close>

definition dfs_inv :: "Graph \<Rightarrow> string set \<Rightarrow> string set \<Rightarrow> bool" where
  "dfs_inv g V P \<longleftrightarrow>
     P \<subseteq> V \<and> V \<subseteq> dom (graph_Nodes g) \<and>
     (\<forall>b c. b \<in> V - P \<and> (b, c) \<in> edges g \<longrightarrow> c \<in> V - P) \<and>
     (\<forall>b \<in> V - P. (b, b) \<notin> (edges g)\<^sup>+)"

definition dfs_post :: "Graph \<Rightarrow> string set \<Rightarrow> string set \<Rightarrow> string set \<Rightarrow> (bool \<times> string set \<times> string set) outcome \<Rightarrow> bool" where
  "dfs_post g V P S r =
     (case r of
        Returned (found, V', P') \<Rightarrow>
          if found then \<not> acyclic (edges g)
          else P' = P \<and> V \<subseteq> V' \<and> S \<subseteq> V' - P \<and> dfs_inv g V' P
      | Panic \<Rightarrow> False
      | OutOfFuel \<Rightarrow> False)"

definition hasCycle_post :: "Graph \<Rightarrow> string set \<Rightarrow> bool outcome \<Rightarrow> bool" where
  "hasCycle_post g S r =
     (case r of
        Returned found \<Rightarrow>
          if found then \<not> acyclic (edges g)
          else (\<exists>V'. S \<subseteq> V' \<and> dfs_inv g V' {})
      | Panic \<Rightarrow> False
      | OutOfFuel \<Rightarrow> False)"

text \<open>
  \<open>from_before_to E order\<close>: in \<open>order\<close>, every successor of an element under the
  relation \<open>E\<close> stands further back than the element. \<open>topo_inv\<close> is the invariant of
  the post-order traversal (\<open>V\<close> the visited nodes, \<open>R\<close> the result so far) and
  \<open>topo_post\<close> what a call of it establishes on an acyclic graph.
\<close>

fun from_before_to :: "('a \<times> 'a) set \<Rightarrow> 'a list \<Rightarrow> bool" where
  "from_before_to E [] \<longleftrightarrow> True"
| "from_before_to E (x # xs) \<longleftrightarrow> (\<forall>c. (x, c) \<in> E \<longrightarrow> c \<in> set xs) \<and> from_before_to E xs"

definition topo_inv :: "Graph \<Rightarrow> string set \<Rightarrow> string list \<Rightarrow> bool" where
  "topo_inv g V R \<longleftrightarrow>
     set R \<subseteq> V \<and> V \<subseteq> dom (graph_Nodes g) \<and> distinct R \<and> from_before_to (edges g) (rev R)"

definition topo_post :: "Graph \<Rightarrow> string set \<Rightarrow> string list \<Rightarrow> string set \<Rightarrow> (string set \<times> string list) outcome \<Rightarrow> bool" where
  "topo_post g V R S r =
     (case r of
        Returned (V', R') \<Rightarrow>
          V \<subseteq> V' \<and> V' - set R' = V - set R \<and> S \<subseteq> set R' \<and> topo_inv g V' R'
      | Panic \<Rightarrow> False
      | OutOfFuel \<Rightarrow> False)"

section \<open>The builder\<close>

subsection \<open>needsRebuild\<close>

text \<open>
  \<open>Builder.needsRebuild\<close> (\<open>b.Cache\<close> is the argument \<open>c\<close>). \<open>os.Stat\<close> returns a nil
  \<open>FileInfo\<close> with every error, so when the stat of the object file fails for another
  reason than its absence, the first \<open>objInfo.ModTime()\<close> panics; so does
  \<open>dependencies[0]\<close> on an empty list. \<open>After\<close> compares the modification times.
\<close>

fun needsRebuild_deps :: "env \<Rightarrow> os_error + int \<Rightarrow> string list \<Rightarrow> (bool \<times> string) outcome" where
  "needsRebuild_deps e objInfo [] = Returned (False, ''up to date'')"
| "needsRebuild_deps e objInfo (dep # rest) =
     (case os_Stat e dep of
        Inl err \<Rightarrow> Returned (True, ''cannot stat dependency'')
      | Inr depModTime \<Rightarrow>
          (case objInfo of
             Inl err \<Rightarrow> Panic
           | Inr objModTime \<Rightarrow>
               if depModTime > objModTime
               then Returned (True, ''dependency '' @ filepath_Base e dep @ '' modified'')
               else needsRebuild_deps e objInfo rest))"

definition needsRebuild :: "env \<Rightarrow> Cache \<Rightarrow> string \<Rightarrow> string list \<Rightarrow> string \<Rightarrow> (bool \<times> string) outcome" where
  "needsRebuild e c objectFile dependencies commandHash =
     (case fst (NeedsRebuild e c objectFile dependencies commandHash) of
        (rebuild, err) \<Rightarrow>
          if err = None \<and> rebuild then Returned (True, ''cache indicates rebuild needed'')
          else
            (let objInfo = os_Stat e objectFile in
             if (case objInfo of Inl err \<Rightarrow> IsNotExist err | Inr modTime \<Rightarrow> False)
             then Returned (True, ''object file doesn't exist'')
             else
               (case dependencies of
                  [] \<Rightarrow> Panic
                | sourceFile # others \<Rightarrow>
                    (case os_Stat e sourceFile of
                       Inl err \<Rightarrow> Returned (True, ''cannot stat source file'')
                     | Inr srcModTime \<Rightarrow>
                         (case objInfo of
                            Inl err \<Rightarrow> Panic
                          | Inr objModTime \<Rightarrow>
                              if srcModTime > objModTime
                              then Returned (True, ''source file modified'')
                              else needsRebuild_deps e objInfo others)))))"

text \<open>
  The call of \<open>needsRebuild\<close> in \<open>scheduleCompilationTasks\<close> and the test of the
  reason that follows it. The third component is what the test logs as a warning.
\<close>

definition scheduleCompilationTasks_check :: "env \<Rightarrow> Cache \<Rightarrow> string \<Rightarrow> string \<Rightarrow> string list \<Rightarrow> string \<Rightarrow> (bool \<times> string \<times> string list) outcome" where
  "scheduleCompilationTasks_check e c sourceFile objectFile dependencies commandHash =
     (case needsRebuild e c objectFile dependencies commandHash of
        Returned (rebuild, reason) \<Rightarrow>
          if reason = []
          then Returned (True, ''error occurred'',
                 [''error checking if '' @ sourceFile @ '' needs rebuild: '' @ reason])
          else Returned (rebuild, reason, [])
      | Panic \<Rightarrow> Panic
      | OutOfFuel \<Rightarrow> OutOfFuel)"

subsection \<open>Waiting for the compile tasks\<close>

record Task =
  task_ID :: string
  task_Command :: string
  task_Args :: "string list"
  task_Dir :: string
  task_Env :: "(string \<times> string) list"
  task_Output :: string
  task_SourceFile :: string
  task_OutputFile :: string
  task_Dependencies :: "string list"
  task_CompleteCh :: bool
  task_Completed :: bool
  task_Error :: "os_error option"
  task_StartTime :: int
  task_EndTime :: int

record Result =
  result_Task :: Task
  result_Success :: bool
  result_Error :: "os_error option"
  result_Output :: string
  result_Duration :: int

text \<open>
  \<open>Executor.WaitForTask\<close> blocks until a worker closes the task's channel and then
  reads the task. The model starts where the wait ends: its argument is the task as the
  worker left it (\<open>task_CompleteCh\<close> says whether the channel is non-nil). A wait that
  never ends is outside the model.
\<close>

definition WaitForTask :: "Task \<Rightarrow> Result option" where
  "WaitForTask task =
     (if \<not> task_CompleteCh task then None
      else Some \<lparr>result_Task = task, result_Success = (task_Error task = None),
                 result_Error = task_Error task, result_Output = task_Output task,
                 result_Duration = task_EndTime task - task_StartTime task\<rparr>)"

text \<open>\<open>dep.Path\<close> for every \<open>dep\<close> of a node: each pointer is looked up by its ID.\<close>

fun dependency_paths :: "Graph \<Rightarrow> string list \<Rightarrow> string list option" where
  "dependency_paths g [] = Some []"
| "dependency_paths g (dep # deps) =
     (case graph_Nodes g dep of
        None \<Rightarrow> None
      | Some node \<Rightarrow> map_option ((#) (node_Path node)) (dependency_paths g deps))"

text \<open>\<open>%d\<close> of a length.\<close>

function decimal :: "nat \<Rightarrow> string" where
  "decimal n = (if n < 10 then [''0123456789'' ! n]
                else decimal (n div 10) @ [''0123456789'' ! (n mod 10)])"
  by pat_completeness auto
termination
  by (relation "measure id") auto

declare decimal.simps [simp del]

text \<open>
  The second half of \<open>scheduleCompilationTasks\<close>: the loop that waits for every task
  of \<open>filesToCompile\<close>, over the state (\<open>compiledCount\<close>, \<open>compilationErrors\<close>,
  \<open>b.Cache\<close>), and the return that follows it. \<open>compilerName\<close> is
  \<open>b.Compiler.GetName()\<close>. Logging is left out. A failed \<open>UpdateEntry\<close> is only
  logged; one that panics ends the loop.
\<close>

fun scheduleCompilationTasks_wait :: "env \<Rightarrow> Graph \<Rightarrow> string \<Rightarrow> string list \<Rightarrow> Task list \<Rightarrow> nat \<times> string list \<times> Cache \<Rightarrow> (nat \<times> string list \<times> Cache) outcome" where
  "scheduleCompilationTasks_wait e g compilerName cFlags [] (compiledCount, compilationErrors, c) =
     Returned (compiledCount, compilationErrors, c)"
| "scheduleCompilationTasks_wait e g compilerName cFlags (task # rest) (compiledCount, compilationErrors, c) =
     (case WaitForTask task of
        None \<Rightarrow>
          scheduleCompilationTasks_wait e g compilerName cFlags rest
            (Suc compiledCount,
             compilationErrors @
               [''Compilation of '' @ task_SourceFile task @ '' failed: unknown error''],
             c)
      | Some result \<Rightarrow>
          if \<not> result_Success result then
            (case result_Error result of
               None \<Rightarrow> Panic
             | Some err \<Rightarrow>
                 scheduleCompilationTasks_wait e g compilerName cFlags rest
                   (Suc compiledCount,
                    compilationErrors @
                      [''Compilation of '' @ task_SourceFile task @ '' failed: '' @ Error err],
                    c))
          else
            (case GetNode g (task_SourceFile task) of
               None \<Rightarrow> Panic
             | Some sourceNode \<Rightarrow>
                 (case dependency_paths g (node_Dependencies sourceNode) of
                    None \<Rightarrow> Panic
                  | Some paths \<Rightarrow>
                      (case UpdateEntry e c (task_OutputFile task)
                              (task_SourceFile task # paths)
                              (CalculateCommandHash e c compilerName cFlags)
                              (task_OutputFile task) (result_Duration result) of
                         Returned (err, c') \<Rightarrow>
                           scheduleCompilationTasks_wait e g compilerName cFlags rest
                             (Suc compiledCount, compilationErrors, c')
                       | Panic \<Rightarrow> Panic
                       | OutOfFuel \<Rightarrow> OutOfFuel))))"

definition scheduleCompilationTasks_finish :: "env \<Rightarrow> Graph \<Rightarrow> string \<Rightarrow> string list \<Rightarrow> string list \<Rightarrow> Task list \<Rightarrow> nat \<Rightarrow> Cache \<Rightarrow> ((string list \<times> os_error option) \<times> Cache) outcome" where
  "scheduleCompilationTasks_finish e g compilerName cFlags objectFiles filesToCompile compiledCount c =
     (case scheduleCompilationTasks_wait e g compilerName cFlags filesToCompile (compiledCount, [], c) of
        Returned (compiledCount', compilationErrors, c') \<Rightarrow>
          if length compilationErrors > 0
          then Returned
                 (([], Some (OsError False
                     (''compilation failed with '' @ decimal (length compilationErrors) @ '' errors''))),
                  c')
          else Returned ((objectFiles, None), c')
      | Panic \<Rightarrow> Panic
      | OutOfFuel \<Rightarrow> OutOfFuel)"

text \<open>
  The entries map of the cache can be assigned to: the cache document is not there yet
  (\<open>PutEntry\<close> will create it) or its map is not nil.
\<close>

definition entries_allocated :: "Cache \<Rightarrow> bool" where
  "entries_allocated c =
     (case cache_BuildCache c of None \<Rightarrow> True | Some bc \<Rightarrow> bc_Entries bc \<noteq> None)"

text \<open>A task failed when the wait for it gives no result or a result without success.\<close>

definition task_failed :: "Task \<Rightarrow> bool" where
  "task_failed task =
     (case WaitForTask task of None \<Rightarrow> True | Some result \<Rightarrow> \<not> result_Success result)"

definition failure_message :: "Task \<Rightarrow> string" where
  "failure_message task =
     ''Compilation of '' @ task_SourceFile task @ '' failed: '' @
       (case WaitForTask task of
          None \<Rightarrow> ''unknown error''
        | Some result \<Rightarrow> (case result_Error result of None \<Rightarrow> [] | Some err \<Rightarrow> Error err))"

section \<open>Concrete file systems and caches\<close>

text \<open>Small environments on which the definitions above are evaluated.\<close>

definition no_file :: os_error where
  "no_file = OsError True ''no such file or directory''"

definition denied :: os_error where
  "denied = OsError False ''permission denied''"

definition zero_BuildCache :: BuildCache where
  "zero_BuildCache = \<lparr>bc_Version = [], bc_Entries = None, bc_LastBuildTime = 0\<rparr>"

text \<open>An empty directory tree in which every directory can be created; the hash is the
  identity, and no document parses.\<close>

definition env_empty :: env where
  "env_empty =
     \<lparr>os_Stat = (\<lambda>p. Inl no_file),
      os_MkdirAll = (\<lambda>p. None),
      os_ReadFile = (\<lambda>p. Inl no_file),
      os_OpenCopy = (\<lambda>p. OpenError no_file),
      time_Now = 0,
      filepath_Dir = (\<lambda>p. ''.''),
      filepath_Base = (\<lambda>p. p),
      sha256_hex = (\<lambda>s. s),
      json_Unmarshal = (\<lambda>d. (zero_BuildCache, Some (OsError False ''unexpected end of JSON input'')))\<rparr>"

text \<open>The cache directory cannot be created (and so the cache file does not exist).\<close>

definition env_no_dir :: env where
  "env_no_dir = env_empty\<lparr>os_MkdirAll := (\<lambda>p. Some denied)\<rparr>"

text \<open>An object file \<open>a.o\<close> built at second 20 from a source \<open>a.c\<close> last written at
  second 10.\<close>

definition env_built :: env where
  "env_built = env_empty
     \<lparr>os_Stat := (\<lambda>p. if p = ''a.o'' then Inr 20000000000
                      else if p = ''a.c'' then Inr 10000000000 else Inl no_file),
      os_OpenCopy := (\<lambda>p. if p = ''a.o'' then Bytes ''obj''
                      else if p = ''a.c'' then Bytes ''src'' else OpenError no_file)\<rparr>"

text \<open>A cache file written by an older version, holding one entry.\<close>

definition old_entry :: CacheEntry where
  "old_entry =
     \<lparr>entry_Path = ''a.o'', entry_Hash = ''obj'', entry_Timestamp = 20,
      entry_Dependencies = [], entry_CommandHash = ''h'', entry_ObjectFile = ''a.o'',
      entry_CompilationTime = 5\<rparr>"

definition old_BuildCache :: BuildCache where
  "old_BuildCache =
     \<lparr>bc_Version = ''0.9'', bc_Entries = Some [''a.o'' \<mapsto> old_entry],
      bc_LastBuildTime = 7\<rparr>"

definition env_old_cache :: env where
  "env_old_cache = env_built
     \<lparr>os_ReadFile := (\<lambda>p. if p = ''cache.json'' then Inr ''old'' else Inl no_file),
      json_Unmarshal := (\<lambda>d. if d = ''old'' then (old_BuildCache, None)
                          else (zero_BuildCache, Some (OsError False ''unexpected end of JSON input'')))\<rparr>"

text \<open>The cache file holds the document \<open>{}\<close>: it parses, and the parsed document is
  the zero value, with a nil entries map.\<close>

definition env_bare_cache :: env where
  "env_bare_cache = env_built
     \<lparr>os_ReadFile := (\<lambda>p. if p = ''cache.json'' then Inr ''{}'' else Inl no_file),
      json_Unmarshal := (\<lambda>d. if d = ''{}'' then (zero_BuildCache, None)
                          else (zero_BuildCache, Some (OsError False ''unexpected end of JSON input'')))\<rparr>"

definition cache_bare :: Cache where
  "cache_bare = (NewCache ''cache.json'')\<lparr>cache_BuildCache := Some zero_BuildCache\<rparr>"

text \<open>The cache after \<open>a.o\<close> was recorded with no dependencies, for a hash function \<open>H\<close>
  and a command hash \<open>h\<close>.\<close>

definition cache_recorded :: "(string \<Rightarrow> string) \<Rightarrow> string list \<Rightarrow> string \<Rightarrow> Cache" where
  "cache_recorded H deps h = (NewCache ''cache.json'')\<lparr>cache_BuildCache :=
     Some \<lparr>bc_Version = ''1.0'',
       bc_Entries = Some [''a.o'' \<mapsto>
         \<lparr>entry_Path = ''a.o'', entry_Hash = H ''obj'', entry_Timestamp = 20,
          entry_Dependencies = deps, entry_CommandHash = h,
          entry_ObjectFile = ''a.o'', entry_CompilationTime = 5\<rparr>],
       bc_LastBuildTime = 0\<rparr>\<rparr>"

section \<open>Concrete graphs and tasks\<close>

definition node_a :: Node where
  "node_a = \<lparr>node_ID = ''a'', node_Type = NodeTypeSource, node_Path = ''a'', node_Hash = [],
     node_Timestamp = 0, node_Dependencies = [], node_CommandHash = []\<rparr>"

definition node_b :: Node where
  "node_b = \<lparr>node_ID = ''b'', node_Type = NodeTypeHeader, node_Path = ''b'', node_Hash = [],
     node_Timestamp = 0, node_Dependencies = [], node_CommandHash = []\<rparr>"

definition graph_self :: Graph where
  "graph_self = snd (AddNode NewGraph (node_a\<lparr>node_Dependencies := [''a'']\<rparr>))"

definition graph_ab :: Graph where
  "graph_ab =
     \<lparr>graph_Nodes = [''a'' \<mapsto> node_a\<lparr>node_Dependencies := [''b'']\<rparr>, ''b'' \<mapsto> node_b],
      graph_EntryPoints = []\<rparr>"

text \<open>Two sources in the graph, and two compile tasks as their workers left them: the
  compilation of \<open>b.c\<close> failed, the one of \<open>a.c\<close> succeeded.\<close>

definition node_a_c :: Node where
  "node_a_c = \<lparr>node_ID = ''a.c'', node_Type = NodeTypeSource, node_Path = ''a.c'',
     node_Hash = [], node_Timestamp = 0, node_Dependencies = [], node_CommandHash = []\<rparr>"

definition node_b_c :: Node where
  "node_b_c = \<lparr>node_ID = ''b.c'', node_Type = NodeTypeSource, node_Path = ''b.c'',
     node_Hash = [], node_Timestamp = 0, node_Dependencies = [], node_CommandHash = []\<rparr>"

definition graph_sources :: Graph where
  "graph_sources = snd (AddNode (snd (AddNode NewGraph node_a_c)) node_b_c)"

definition task_a :: Task where
  "task_a = \<lparr>task_ID = ''a.c'', task_Command = ''gcc'',
     task_Args = [''-c'', ''a.c'', ''-o'', ''a.o'', ''-O2''], task_Dir = [], task_Env = [],
     task_Output = [], task_SourceFile = ''a.c'', task_OutputFile = ''a.o'',
     task_Dependencies = [], task_CompleteCh = True, task_Completed = False,
     task_Error = None, task_StartTime = 1, task_EndTime = 3\<rparr>"

definition task_b :: Task where
  "task_b = \<lparr>task_ID = ''b.c'', task_Command = ''gcc'',
     task_Args = [''-c'', ''b.c'', ''-o'', ''b.o'', ''-O2''], task_Dir = [], task_Env = [],
     task_Output = [], task_SourceFile = ''b.c'', task_OutputFile = ''b.o'',
     task_Dependencies = [], task_CompleteCh = True, task_Completed = True,
     task_Error = Some (OsError False ''exit status 1: b.c:1:1: error: expected identifier''),
     task_StartTime = 1, task_EndTime = 2\<rparr>"

section \<open>Properties of the build cache\<close>

subsection \<open>NeedsRebuild leaves the cache as it found it\<close>

lemma GetEntry_cache: "snd (GetEntry c path) = c"
  by (simp add: GetEntry_def split: option.splits)

lemma CalculateFileHash_cache: "snd (CalculateFileHash e c path) = c"
  by (simp add: CalculateFileHash_def split: file_read.splits)

lemma NeedsRebuild_cache:
  "snd (NeedsRebuild e c path deps h) = c"
  "snd (NeedsRebuild_deps e c entry ds) = c"
proof (induction e c path deps h and e c entry ds rule: NeedsRebuild_NeedsRebuild_deps.induct)
  case (1 e c path dependencies commandHash)
  then show ?case
    by (auto simp: NeedsRebuild.simps(1) GetEntry_def CalculateFileHash_def
        split: option.splits sum.splits file_read.splits prod.splits)
next
  case (2 e c entry)
  show ?case by simp
next
  case (3 e c entry depPath rest)
  then show ?case
    by (auto split: sum.splits prod.splits)
qed

text \<open>
  C10. \<open>NeedsRebuild\<close> is a pure query of the cache: whatever the file system answers and
  whatever the result (true, false, with or without an error), the cache it leaves
  behind, that is the path, the version, the entries map with every entry's fields and the
  last-build time, is the cache it was called on; so is the one \<open>GetEntry\<close> leaves.
\<close>

theorem NeedsRebuild_pure:
  "snd (NeedsRebuild e c path dependencies commandHash) = c \<and> snd (GetEntry c path) = c"
  by (simp add: NeedsRebuild_cache(1) GetEntry_cache)

subsection \<open>When NeedsRebuild answers true\<close>





subsection \<open>UpdateEntry followed by NeedsRebuild\<close>

text \<open>With no dependencies the round trip holds: the entry just written is up to date.\<close>

lemma roundtrip_no_dependencies:
  assumes "UpdateEntry e c path [] h obj t = Returned (None, c')"
  shows "fst (NeedsRebuild e c' path [] h) = (False, None)"
proof -
  from assms obtain modTime where st: "os_Stat e path = Inr modTime"
    by (auto simp: UpdateEntry_def split: sum.splits)
  from assms st obtain content where rd: "os_OpenCopy e path = Bytes content"
    by (auto simp: UpdateEntry_def CalculateFileHash_def split: file_read.splits)
  from assms st rd have put: "PutEntry e c
      \<lparr>entry_Path = path, entry_Hash = sha256_hex e content, entry_Timestamp = Unix modTime,
       entry_Dependencies = [], entry_CommandHash = h,
       entry_ObjectFile = obj, entry_CompilationTime = t\<rparr> = Returned c'"
    by (simp add: UpdateEntry_def CalculateFileHash_def split: outcome.splits)
  then have "fst (GetEntry c' path) =
      Some \<lparr>entry_Path = path, entry_Hash = sha256_hex e content, entry_Timestamp = Unix modTime,
       entry_Dependencies = [], entry_CommandHash = h,
       entry_ObjectFile = obj, entry_CompilationTime = t\<rparr>"
    by (auto simp: PutEntry_def Let_def GetEntry_def split: option.splits)
  then have get: "GetEntry c' path =
      (Some \<lparr>entry_Path = path, entry_Hash = sha256_hex e content, entry_Timestamp = Unix modTime,
       entry_Dependencies = [], entry_CommandHash = h,
       entry_ObjectFile = obj, entry_CompilationTime = t\<rparr>, c')"
    using GetEntry_cache[of c' path] by (simp add: prod_eq_iff)
  show ?thesis
    by (simp add: NeedsRebuild.simps(1) get st rd CalculateFileHash_def)
qed

text \<open>
  C3. The round trip fails as soon as a dependency is listed. In \<open>env_built\<close>, whatever
  the hash function \<open>H\<close>, \<open>UpdateEntry\<close> records the object file \<open>a.o\<close> with its source
  \<open>a.c\<close> (older than the object file) as its one dependency, nothing changes, and
  \<open>NeedsRebuild\<close> with the same arguments answers true: the loop over the dependencies
  asks \<open>NeedsRebuild\<close> about \<open>a.c\<close>, which has no entry of its own.
\<close>

theorem roundtrip_with_dependency:
  "UpdateEntry (env_built\<lparr>sha256_hex := H\<rparr>) (NewCache ''cache.json'')
      ''a.o'' [''a.c''] ''h'' ''a.o'' 5 = Returned (None, cache_recorded H [''a.c''] ''h'') \<and>
   fst (NeedsRebuild (env_built\<lparr>sha256_hex := H\<rparr>) (cache_recorded H [''a.c''] ''h'')
          ''a.o'' [''a.c''] ''h'') = (True, None)"
  by (simp add: NeedsRebuild.simps(1) UpdateEntry_def CalculateFileHash_def PutEntry_def
      GetEntry_def NewCache_def cache_recorded_def Unix_def env_built_def env_empty_def
      no_file_def)

subsection \<open>The command hash\<close>

text \<open>
  C5. Two different argument lists of the same compiler get the same command hash,
  whatever the hash function of the environment: the arguments \<open>-DA=1 -DB\<close> and the single
  argument \<open>-DA=1-DB\<close> feed the hasher the same bytes. An entry recorded under the first
  command is then reported up to date under the second (\<open>H\<close> is any hash function).
\<close>

theorem command_hash_collision:
  "(''gcc'', [''-DA=1'', ''-DB'']) \<noteq> (''gcc'', [''-DA=1-DB'']) \<and>
   CalculateCommandHash e c ''gcc'' [''-DA=1'', ''-DB''] =
     CalculateCommandHash e c ''gcc'' [''-DA=1-DB''] \<and>
   UpdateEntry (env_built\<lparr>sha256_hex := H\<rparr>) (NewCache ''cache.json'') ''a.o'' []
      (CalculateCommandHash (env_built\<lparr>sha256_hex := H\<rparr>) (NewCache ''cache.json'')
         ''gcc'' [''-DA=1'', ''-DB''])
      ''a.o'' 5 =
     Returned (None, cache_recorded H [] (H ''gcc-DA=1-DB'')) \<and>
   fst (NeedsRebuild (env_built\<lparr>sha256_hex := H\<rparr>) (cache_recorded H [] (H ''gcc-DA=1-DB''))
          ''a.o'' []
          (CalculateCommandHash (env_built\<lparr>sha256_hex := H\<rparr>) (NewCache ''cache.json'')
             ''gcc'' [''-DA=1-DB''])) =
     (False, None)"
  by (simp add: NeedsRebuild.simps(1) CalculateCommandHash_def UpdateEntry_def
      CalculateFileHash_def PutEntry_def GetEntry_def NewCache_def cache_recorded_def Unix_def
      env_built_def env_empty_def no_file_def)

text \<open>What does hold: a command hash that differs from the recorded one forces a rebuild.\<close>

lemma NeedsRebuild_other_command_hash:
  assumes "fst (GetEntry c path) = Some entry" and "commandHash \<noteq> entry_CommandHash entry"
  shows "fst (fst (NeedsRebuild e c path dependencies commandHash))"
  using assms
  by (auto simp: NeedsRebuild.simps(1) GetEntry_def CalculateFileHash_def
      split: option.splits sum.splits file_read.splits)

subsection \<open>Loading the cache\<close>

text \<open>
  C6, as the claim states it, fails: in \<open>env_no_dir\<close> the cache file does not exist
  (reading it gives a not-exist error), and \<open>Load\<close> returns an error, because the directory
  of the cache file cannot be created; the cache is left as it was.
\<close>

theorem Load_missing_dir_counterexample:
  "os_ReadFile env_no_dir (cache_Path (NewCache ''cache.json'')) = Inl no_file \<and>
   IsNotExist no_file \<and>
   Load env_no_dir (NewCache ''cache.json'') =
     (Some (OsError False ''failed to create cache directory: permission denied''),
      NewCache ''cache.json'')"
  by (simp add: Load_def Errorf_def env_no_dir_def env_empty_def no_file_def denied_def)

text \<open>
  C6, amended. When the directory of the cache file exists or can be created and the
  cache file does not exist, \<open>Load\<close> succeeds and the cache is empty (version 1.0, no
  entries). \<open>Load\<close> returns an error exactly when the directory cannot be created, when
  reading the file fails for another reason than its absence, or when the content read
  does not parse.
\<close>

theorem Load_result:
  "(os_MkdirAll e (filepath_Dir e (cache_Path c)) = None \<and>
    (\<exists>err. os_ReadFile e (cache_Path c) = Inl err \<and> IsNotExist err) \<longrightarrow>
      Load e c = (None, c\<lparr>cache_BuildCache :=
         Some \<lparr>bc_Version = ''1.0'', bc_Entries = Some Map.empty,
               bc_LastBuildTime = time_Now e\<rparr>\<rparr>)) \<and>
   (fst (Load e c) \<noteq> None \<longleftrightarrow>
      os_MkdirAll e (filepath_Dir e (cache_Path c)) \<noteq> None \<or>
      (\<exists>err. os_ReadFile e (cache_Path c) = Inl err \<and> \<not> IsNotExist err) \<or>
      (\<exists>data. os_ReadFile e (cache_Path c) = Inr data \<and> snd (json_Unmarshal e data) \<noteq> None))"
  by (auto simp: Load_def split: option.splits sum.splits prod.splits)

theorem Load_result_witness:
  "Load env_empty (NewCache ''cache.json'') =
     (None, \<lparr>cache_Path = ''cache.json'',
        cache_BuildCache =
          Some \<lparr>bc_Version = ''1.0'', bc_Entries = Some Map.empty, bc_LastBuildTime = 0\<rparr>,
        cache_HashAlgorithm = ''sha256''\<rparr>)"
  using Load_result [of env_empty "NewCache ''cache.json''"]
  by (simp add: NewCache_def env_empty_def no_file_def)

text \<open>
  C7, as the claim states it, fails: in \<open>env_old_cache\<close> the cache file parses to a
  document of version 0.9 with an entry for \<open>a.o\<close>; \<open>Load\<close> succeeds and the entry is
  still in the cache.
\<close>

theorem Load_old_version_counterexample:
  "bc_Version old_BuildCache \<noteq> ''1.0'' \<and>
   fst (Load env_old_cache (NewCache ''cache.json'')) = None \<and>
   fst (GetEntry (snd (Load env_old_cache (NewCache ''cache.json''))) ''a.o'') = Some old_entry"
  by (simp add: Load_def GetEntry_def NewCache_def env_old_cache_def env_built_def
      env_empty_def old_BuildCache_def)

text \<open>
  C7, amended. When \<open>Load\<close> reads a cache file that parses, it returns no error and the
  cache is the parsed document as it is, with its version and all its entries, whatever
  the version: \<open>Load\<close> never looks at it.
\<close>

theorem Load_keeps_parsed:
  "os_MkdirAll e (filepath_Dir e (cache_Path c)) = None \<Longrightarrow>
   os_ReadFile e (cache_Path c) = Inr data \<Longrightarrow>
   json_Unmarshal e data = (bc, None) \<Longrightarrow>
   Load e c = (None, c\<lparr>cache_BuildCache := Some bc\<rparr>)"
  by (simp add: Load_def)

theorem Load_keeps_parsed_witness:
  "Load env_old_cache (NewCache ''cache.json'') =
     (None, (NewCache ''cache.json'')\<lparr>cache_BuildCache := Some old_BuildCache\<rparr>)"
  by (rule Load_keeps_parsed [where data = "''old''"])
     (simp_all add: NewCache_def env_old_cache_def env_built_def env_empty_def)

section \<open>Properties of the dependency graph\<close>

subsection \<open>The cycle check is correct\<close>

text \<open>
  The traversal colours the nodes: not visited, on the current path, finished (visited
  and off the path). \<open>dfs_inv\<close> says that the finished nodes are closed under the edge
  relation and lie on no cycle; every node on the path reaches the node being
  visited. The number of unvisited nodes bounds the depth of the recursion.
\<close>

lemma edges_iff:
  "(a, b) \<in> edges g \<longleftrightarrow> (\<exists>node. graph_Nodes g a = Some node \<and> b \<in> set (node_Dependencies node))"
  by (simp add: edges_def)

lemma closed_graph_edge: "closed_graph g \<Longrightarrow> (a, b) \<in> edges g \<Longrightarrow> b \<in> dom (graph_Nodes g)"
  by (auto simp: closed_graph_def edges_def ran_def)

lemma closed_under_rtrancl:
  assumes "(s, y) \<in> E\<^sup>*" and "s \<in> B" and "\<forall>b c. b \<in> B \<and> (b, c) \<in> E \<longrightarrow> c \<in> B"
  shows "y \<in> B"
  using assms by (induction rule: rtrancl_induct) auto

lemma dfs_inv_enter:
  assumes "dfs_inv g V P" and "x \<in> dom (graph_Nodes g)" and "x \<notin> V"
  shows "dfs_inv g (insert x V) (insert x P)"
proof -
  have PV: "P \<subseteq> V" and VD: "V \<subseteq> dom (graph_Nodes g)"
    and cl: "\<forall>b c. b \<in> V - P \<and> (b, c) \<in> edges g \<longrightarrow> c \<in> V - P"
    and ac: "\<forall>b \<in> V - P. (b, b) \<notin> (edges g)\<^sup>+"
    using assms(1) unfolding dfs_inv_def by blast+
  have eq: "insert x V - insert x P = V - P" using assms(3) PV by blast
  have "insert x P \<subseteq> insert x V" using PV by blast
  moreover have "insert x V \<subseteq> dom (graph_Nodes g)" using VD assms(2) by blast
  ultimately show ?thesis
    unfolding dfs_inv_def eq using cl ac by blast
qed

lemma dfs_inv_leave:
  assumes inv: "dfs_inv g V' (insert x P)" and xP: "x \<notin> P" and xV: "x \<in> V'"
    and succ: "\<forall>c. (x, c) \<in> edges g \<longrightarrow> c \<in> V' - insert x P"
  shows "dfs_inv g V' P"
proof -
  define B where "B = V' - insert x P"
  have PV: "insert x P \<subseteq> V'" and VD: "V' \<subseteq> dom (graph_Nodes g)"
    and closedB: "\<forall>b c. b \<in> B \<and> (b, c) \<in> edges g \<longrightarrow> c \<in> B"
    and acB: "\<forall>b \<in> B. (b, b) \<notin> (edges g)\<^sup>+"
    using inv unfolding dfs_inv_def B_def by blast+
  have succB: "\<forall>c. (x, c) \<in> edges g \<longrightarrow> c \<in> B"
    using succ unfolding B_def .
  have xB: "x \<notin> B" unfolding B_def by blast
  have eq: "V' - P = insert x B" unfolding B_def using xP xV by blast
  have xx: "(x, x) \<notin> (edges g)\<^sup>+"
  proof
    assume "(x, x) \<in> (edges g)\<^sup>+"
    then obtain s where s: "(x, s) \<in> edges g" "(s, x) \<in> (edges g)\<^sup>*"
      by (meson tranclD)
    from s(1) succB have "s \<in> B" by blast
    with s(2) have "x \<in> B" using closedB by (rule closed_under_rtrancl)
    with xB show False by blast
  qed
  have c1: "P \<subseteq> V'" using PV by blast
  have c3: "\<forall>b c. b \<in> insert x B \<and> (b, c) \<in> edges g \<longrightarrow> c \<in> insert x B"
    using closedB succB by blast
  have c4: "\<forall>b \<in> insert x B. (b, b) \<notin> (edges g)\<^sup>+"
    using acB xx by blast
  show ?thesis
    unfolding dfs_inv_def eq using c1 VD c3 c4 by blast
qed

lemma card_diff_mono:
  assumes "finite D" and "V \<subseteq> V'" and "card (D - V) \<le> n"
  shows "card (D - V') \<le> n"
proof -
  have "D - V' \<subseteq> D - V" using assms(2) by auto
  then have "card (D - V') \<le> card (D - V)" using assms(1) by (simp add: card_mono)
  with assms(3) show ?thesis by simp
qed

lemma card_diff_insert:
  assumes "finite D" and "x \<in> D" and "x \<notin> V" and "card (D - V) \<le> Suc n"
  shows "card (D - insert x V) \<le> n"
proof -
  have "D - insert x V = (D - V) - {x}" by auto
  moreover have "x \<in> D - V" using assms by simp
  moreover have "finite (D - V)" using assms(1) by simp
  ultimately have "card (D - insert x V) = card (D - V) - 1" by simp
  with assms(4) show ?thesis by simp
qed

lemma dfsHasCycle_deps_step:
  assumes dfs_ok: "\<And>x V P. x \<in> dom (graph_Nodes g) \<Longrightarrow> x \<notin> V \<Longrightarrow> dfs_inv g V P \<Longrightarrow>
      \<forall>p \<in> P. (p, x) \<in> (edges g)\<^sup>* \<Longrightarrow> card (dom (graph_Nodes g) - V) \<le> n \<Longrightarrow>
      dfs_post g V P {x} (dfsHasCycle n g x (V, P))"
    and cl: "closed_graph g" and fin: "finite (dom (graph_Nodes g))"
    and xP: "x \<in> P" and reach: "\<forall>p \<in> P. (p, x) \<in> (edges g)\<^sup>*"
  shows "dfs_inv g V P \<Longrightarrow> \<forall>d \<in> set ds. (x, d) \<in> edges g \<Longrightarrow>
      card (dom (graph_Nodes g) - V) \<le> n \<Longrightarrow>
      dfs_post g V P (set ds) (dfsHasCycle_deps n g ds (V, P))"
proof (induction ds arbitrary: V)
  case Nil
  then show ?case by (simp add: dfs_post_def)
next
  case (Cons d ds)
  have xd: "(x, d) \<in> edges g" using Cons.prems(2) by simp
  have rest: "\<forall>d \<in> set ds. (x, d) \<in> edges g" using Cons.prems(2) by simp
  show ?case
  proof (cases "d \<in> V")
    case False
    have dD: "d \<in> dom (graph_Nodes g)" using cl xd by (rule closed_graph_edge)
    have rd: "\<forall>p \<in> P. (p, d) \<in> (edges g)\<^sup>*"
      using reach xd by (meson rtrancl.rtrancl_into_rtrancl)
    have post: "dfs_post g V P {d} (dfsHasCycle n g d (V, P))"
      using dD False Cons.prems(1) rd Cons.prems(3) by (rule dfs_ok)
    then obtain found V' P' where r: "dfsHasCycle n g d (V, P) = Returned (found, V', P')"
      by (auto simp: dfs_post_def split: outcome.splits)
    show ?thesis
    proof (cases found)
      case True
      with post r False show ?thesis by (simp add: dfs_post_def)
    next
      case nf: False
      from post r nf have P': "P' = P" and VV': "V \<subseteq> V'" and dV': "d \<in> V' - P"
        and inv': "dfs_inv g V' P"
        by (simp_all add: dfs_post_def)
      have card': "card (dom (graph_Nodes g) - V') \<le> n"
        using fin VV' Cons.prems(3) by (rule card_diff_mono)
      have IH: "dfs_post g V' P (set ds) (dfsHasCycle_deps n g ds (V', P))"
        using inv' rest card' by (rule Cons.IH)
      show ?thesis
        using False r nf P' IH VV' dV'
        by (auto simp: dfs_post_def split: outcome.splits if_splits)
    qed
  next
    case True
    show ?thesis
    proof (cases "d \<in> P")
      case dP: True
      then have "(d, x) \<in> (edges g)\<^sup>*" using reach by simp
      with xd have "(x, x) \<in> (edges g)\<^sup>+" by (rule rtrancl_into_trancl2)
      then have "\<not> acyclic (edges g)" by (auto simp: acyclic_def)
      with True dP show ?thesis by (simp add: dfs_post_def)
    next
      case dP: False
      have IH: "dfs_post g V P (set ds) (dfsHasCycle_deps n g ds (V, P))"
        using Cons.prems(1) rest Cons.prems(3) by (rule Cons.IH)
      show ?thesis
        using True dP IH
        by (auto simp: dfs_post_def split: outcome.splits if_splits)
    qed
  qed
qed

lemma dfsHasCycle_step:
  assumes deps_ok: "\<And>x V P ds. x \<in> P \<Longrightarrow> \<forall>p \<in> P. (p, x) \<in> (edges g)\<^sup>* \<Longrightarrow> dfs_inv g V P \<Longrightarrow>
      \<forall>d \<in> set ds. (x, d) \<in> edges g \<Longrightarrow> card (dom (graph_Nodes g) - V) \<le> n \<Longrightarrow>
      dfs_post g V P (set ds) (dfsHasCycle_deps n g ds (V, P))"
    and fin: "finite (dom (graph_Nodes g))"
    and xD: "x \<in> dom (graph_Nodes g)" and xV: "x \<notin> V" and inv: "dfs_inv g V P"
    and reach: "\<forall>p \<in> P. (p, x) \<in> (edges g)\<^sup>*"
    and card: "card (dom (graph_Nodes g) - V) \<le> Suc n"
  shows "dfs_post g V P {x} (dfsHasCycle (Suc n) g x (V, P))"
proof -
  from xD obtain node where node: "graph_Nodes g x = Some node" by blast
  let ?ds = "node_Dependencies node"
  have PV: "P \<subseteq> V" using inv unfolding dfs_inv_def by blast
  have xP: "x \<notin> P" using xV PV by blast
  have inv1: "dfs_inv g (insert x V) (insert x P)"
    using inv xD xV by (rule dfs_inv_enter)
  have reach1: "\<forall>p \<in> insert x P. (p, x) \<in> (edges g)\<^sup>*" using reach by blast
  have ed: "\<forall>d \<in> set ?ds. (x, d) \<in> edges g" using node by (simp add: edges_iff)
  have card1: "card (dom (graph_Nodes g) - insert x V) \<le> n"
    using fin xD xV card by (rule card_diff_insert)
  have post: "dfs_post g (insert x V) (insert x P) (set ?ds)
      (dfsHasCycle_deps n g ?ds (insert x V, insert x P))"
    by (rule deps_ok[OF _ reach1 inv1 ed card1]) simp
  then obtain found V' P' where
    r: "dfsHasCycle_deps n g ?ds (insert x V, insert x P) = Returned (found, V', P')"
    by (auto simp: dfs_post_def split: outcome.splits)
  show ?thesis
  proof (cases found)
    case True
    with post r node show ?thesis by (simp add: dfs_post_def)
  next
    case False
    from post r False have P': "P' = insert x P" and VV': "insert x V \<subseteq> V'"
      and sub: "set ?ds \<subseteq> V' - insert x P" and inv': "dfs_inv g V' (insert x P)"
      by (simp_all add: dfs_post_def)
    have xV': "x \<in> V'" using VV' by blast
    have succ: "\<forall>c. (x, c) \<in> edges g \<longrightarrow> c \<in> V' - insert x P"
      using sub node by (auto simp: edges_iff)
    have inv2: "dfs_inv g V' P" using inv' xP xV' succ by (rule dfs_inv_leave)
    have "P' - {x} = P" using P' xP by blast
    moreover have "V \<subseteq> V'" using VV' by blast
    moreover have "{x} \<subseteq> V' - P" using xV' xP by blast
    ultimately show ?thesis
      using r False node inv2 by (simp add: dfs_post_def)
  qed
qed

lemma dfsHasCycle_correct_aux:
  assumes cl: "closed_graph g" and fin: "finite (dom (graph_Nodes g))"
  shows "(\<forall>x V P. x \<in> dom (graph_Nodes g) \<longrightarrow> x \<notin> V \<longrightarrow> dfs_inv g V P \<longrightarrow>
            (\<forall>p \<in> P. (p, x) \<in> (edges g)\<^sup>*) \<longrightarrow> card (dom (graph_Nodes g) - V) \<le> n \<longrightarrow>
            dfs_post g V P {x} (dfsHasCycle n g x (V, P)))"
proof (induction n)
  case 0
  show ?case
  proof (intro allI impI)
    fix x V P
    assume "x \<in> dom (graph_Nodes g)" "x \<notin> V" "card (dom (graph_Nodes g) - V) \<le> 0"
    then have "x \<in> dom (graph_Nodes g) - V" "card (dom (graph_Nodes g) - V) = 0" by simp_all
    moreover have "finite (dom (graph_Nodes g) - V)" using fin by simp
    ultimately have False by auto
    then show "dfs_post g V P {x} (dfsHasCycle 0 g x (V, P))" ..
  qed
next
  case (Suc n)
  have deps_ok: "dfs_post g V P (set ds) (dfsHasCycle_deps n g ds (V, P))"
    if "x \<in> P" "\<forall>p \<in> P. (p, x) \<in> (edges g)\<^sup>*" "dfs_inv g V P"
      "\<forall>d \<in> set ds. (x, d) \<in> edges g" "card (dom (graph_Nodes g) - V) \<le> n"
    for x V P ds
    by (rule dfsHasCycle_deps_step[OF _ cl fin that(1) that(2) that(3) that(4) that(5)])
       (use Suc.IH in blast)
  show ?case
  proof (intro allI impI)
    fix x V P
    assume a: "x \<in> dom (graph_Nodes g)" "x \<notin> V" "dfs_inv g V P"
      "\<forall>p \<in> P. (p, x) \<in> (edges g)\<^sup>*" "card (dom (graph_Nodes g) - V) \<le> Suc n"
    show "dfs_post g V P {x} (dfsHasCycle (Suc n) g x (V, P))"
    proof (rule dfsHasCycle_step)
      show "dfs_post g V' P' (set ds) (dfsHasCycle_deps n g ds (V', P'))"
        if "x' \<in> P'" "\<forall>p \<in> P'. (p, x') \<in> (edges g)\<^sup>*" "dfs_inv g V' P'"
          "\<forall>d \<in> set ds. (x', d) \<in> edges g" "card (dom (graph_Nodes g) - V') \<le> n"
        for x' V' P' ds
        using that by (rule deps_ok)
    qed (rule fin a)+
  qed
qed

lemma dfsHasCycle_correct:
  assumes "closed_graph g" and "finite (dom (graph_Nodes g))"
    and "x \<in> dom (graph_Nodes g)" and "x \<notin> V" and "dfs_inv g V {}"
    and "card (dom (graph_Nodes g) - V) \<le> n"
  shows "dfs_post g V {} {x} (dfsHasCycle n g x (V, {}))"
  using dfsHasCycle_correct_aux[OF assms(1,2), of n] assms(3-6) by blast

lemma hasCycle_nodes_correct:
  assumes cl: "closed_graph g" and fin: "finite (dom (graph_Nodes g))"
    and n: "card (dom (graph_Nodes g)) \<le> n"
  shows "set ks \<subseteq> dom (graph_Nodes g) \<Longrightarrow> dfs_inv g V {} \<Longrightarrow>
     hasCycle_post g (V \<union> set ks) (hasCycle_nodes n g ks (V, {}))"
proof (induction ks arbitrary: V)
  case Nil
  then show ?case by (auto simp: hasCycle_post_def)
next
  case (Cons k ks)
  have kD: "k \<in> dom (graph_Nodes g)" and ks: "set ks \<subseteq> dom (graph_Nodes g)"
    using Cons.prems(1) by simp_all
  show ?case
  proof (cases "k \<in> V")
    case True
    have "hasCycle_post g (V \<union> set ks) (hasCycle_nodes n g ks (V, {}))"
      using ks Cons.prems(2) by (rule Cons.IH)
    moreover have "V \<union> set (k # ks) = V \<union> set ks" using True by auto
    ultimately show ?thesis using True by simp
  next
    case False
    have "card (dom (graph_Nodes g) - V) \<le> card (dom (graph_Nodes g))"
      using fin by (simp add: card_mono)
    with n have cardV: "card (dom (graph_Nodes g) - V) \<le> n" by simp
    have post: "dfs_post g V {} {k} (dfsHasCycle n g k (V, {}))"
      using cl fin kD False Cons.prems(2) cardV by (rule dfsHasCycle_correct)
    then obtain found V' P' where r: "dfsHasCycle n g k (V, {}) = Returned (found, V', P')"
      by (auto simp: dfs_post_def split: outcome.splits)
    show ?thesis
    proof (cases found)
      case True
      with post r False show ?thesis by (simp add: dfs_post_def hasCycle_post_def)
    next
      case nf: False
      from post r nf have P': "P' = {}" and VV': "V \<subseteq> V'" and kV': "k \<in> V'"
        and inv': "dfs_inv g V' {}"
        by (simp_all add: dfs_post_def)
      have IH: "hasCycle_post g (V' \<union> set ks) (hasCycle_nodes n g ks (V', {}))"
        using ks inv' by (rule Cons.IH)
      have sub: "V \<union> set (k # ks) \<subseteq> V' \<union> set ks" using VV' kV' by auto
      show ?thesis
        using False r nf P' IH sub
        by (auto simp: hasCycle_post_def split: outcome.splits if_splits)
    qed
  qed
qed

lemma dfs_inv_all_acyclic:
  assumes inv: "dfs_inv g V {}" and all: "dom (graph_Nodes g) \<subseteq> V"
  shows "acyclic (edges g)"
proof -
  have ac: "\<forall>b \<in> V. (b, b) \<notin> (edges g)\<^sup>+"
    using inv unfolding dfs_inv_def by simp
  have "(a, a) \<notin> (edges g)\<^sup>+" for a
  proof (cases "a \<in> V")
    case True
    with ac show ?thesis by blast
  next
    case False
    with all have "graph_Nodes g a = None" by blast
    then have "\<And>b. (a, b) \<notin> edges g" by (simp add: edges_iff)
    then show ?thesis by (meson tranclD)
  qed
  then show ?thesis by (simp add: acyclic_def)
qed

lemma dfs_inv_empty: "dfs_inv g {} {}"
  unfolding dfs_inv_def by blast

lemma hasCycle_correct:
  assumes cl: "closed_graph g" and ks: "set keys = dom (graph_Nodes g)"
  shows "hasCycle keys g = Returned (\<not> acyclic (edges g))"
proof -
  have fin: "finite (dom (graph_Nodes g))" using ks[symmetric] by simp
  have "card (dom (graph_Nodes g)) \<le> length keys"
    using ks[symmetric] by (simp add: card_length)
  with cl fin have post: "hasCycle_post g ({} \<union> set keys) (hasCycle_nodes (length keys) g keys ({}, {}))"
    using ks dfs_inv_empty by (intro hasCycle_nodes_correct) simp_all
  then obtain found where r: "hasCycle keys g = Returned found"
    by (auto simp: hasCycle_post_def hasCycle_def split: outcome.splits)
  show ?thesis
  proof (cases found)
    case True
    with post r show ?thesis by (simp add: hasCycle_post_def hasCycle_def)
  next
    case False
    with post r obtain V' where "set keys \<subseteq> V'" "dfs_inv g V' {}"
      by (auto simp: hasCycle_post_def hasCycle_def)
    then have "acyclic (edges g)" using ks dfs_inv_all_acyclic by simp
    with r False show ?thesis by simp
  qed
qed

subsection \<open>AddDependency keeps the graph acyclic\<close>

lemma edges_add_dependency:
  assumes "graph_Nodes g a = Some node"
  shows "edges (g\<lparr>graph_Nodes := (graph_Nodes g)(a \<mapsto>
            node\<lparr>node_Dependencies := node_Dependencies node @ [b]\<rparr>)\<rparr>) = insert (a, b) (edges g)"
  using assms by (auto simp: edges_def split: if_splits)

lemma closed_add_dependency:
  assumes "closed_graph g" and "graph_Nodes g a = Some node" and "graph_Nodes g b = Some node'"
  shows "closed_graph (g\<lparr>graph_Nodes := (graph_Nodes g)(a \<mapsto>
            node\<lparr>node_Dependencies := node_Dependencies node @ [b]\<rparr>)\<rparr>)"
  using assms unfolding closed_graph_def ran_def
  by (auto split: if_splits) blast+

lemma dom_add_dependency:
  assumes "graph_Nodes g a = Some node"
  shows "dom (graph_Nodes (g\<lparr>graph_Nodes := (graph_Nodes g)(a \<mapsto> node')\<rparr>)) = dom (graph_Nodes g)"
  using assms by auto

lemma rollback_dependency:
  assumes "graph_Nodes g a = Some node"
  shows "(g\<lparr>graph_Nodes := (graph_Nodes g)(a \<mapsto>
            node\<lparr>node_Dependencies := node_Dependencies node @ [b]\<rparr>)\<rparr>)
          \<lparr>graph_Nodes := (graph_Nodes (g\<lparr>graph_Nodes := (graph_Nodes g)(a \<mapsto>
            node\<lparr>node_Dependencies := node_Dependencies node @ [b]\<rparr>)\<rparr>))(a \<mapsto>
              (node\<lparr>node_Dependencies := node_Dependencies node @ [b]\<rparr>)
                \<lparr>node_Dependencies := butlast (node_Dependencies
                    (node\<lparr>node_Dependencies := node_Dependencies node @ [b]\<rparr>))\<rparr>)\<rparr> = g"
proof -
  have "(graph_Nodes g)(a \<mapsto> node) = graph_Nodes g" using assms by (rule map_upd_triv)
  then show ?thesis by simp
qed

lemma AddDependency_result:
  assumes cl: "closed_graph g" and ks: "set keys = dom (graph_Nodes g)"
    and "from": "graph_Nodes g fromID = Some fromNode" and to: "graph_Nodes g toID = Some toNode"
    and new: "toID \<notin> set (node_Dependencies fromNode)"
  shows "AddDependency keys g fromID toID =
     (if acyclic (insert (fromID, toID) (edges g))
      then Returned (None, g\<lparr>graph_Nodes := (graph_Nodes g)(fromID \<mapsto>
              fromNode\<lparr>node_Dependencies := node_Dependencies fromNode @ [toID]\<rparr>)\<rparr>)
      else Returned (Some (WouldCreateCycle fromID toID), g))"
proof -
  let ?g1 = "g\<lparr>graph_Nodes := (graph_Nodes g)(fromID \<mapsto>
              fromNode\<lparr>node_Dependencies := node_Dependencies fromNode @ [toID]\<rparr>)\<rparr>"
  have cl1: "closed_graph ?g1" using cl "from" to by (rule closed_add_dependency)
  have ks1: "set keys = dom (graph_Nodes ?g1)" using ks dom_add_dependency[OF "from"] by simp
  have e1: "edges ?g1 = insert (fromID, toID) (edges g)" using "from" by (rule edges_add_dependency)
  have hc: "hasCycle keys ?g1 = Returned (\<not> acyclic (insert (fromID, toID) (edges g)))"
    using hasCycle_correct[OF cl1 ks1] e1 by simp
  have rb: "?g1\<lparr>graph_Nodes := (graph_Nodes ?g1)(fromID \<mapsto>
              (fromNode\<lparr>node_Dependencies := node_Dependencies fromNode @ [toID]\<rparr>)
                \<lparr>node_Dependencies := butlast (node_Dependencies
                    (fromNode\<lparr>node_Dependencies := node_Dependencies fromNode @ [toID]\<rparr>))\<rparr>)\<rparr> = g"
    using "from" by (rule rollback_dependency)
  show ?thesis
    unfolding AddDependency_def Let_def using "from" to new hc rb by simp
qed

lemma AddDependency_returns:
  assumes cl: "closed_graph g" and ks: "set keys = dom (graph_Nodes g)"
  shows "\<exists>err g'. AddDependency keys g fromID toID = Returned (err, g')"
proof (cases "graph_Nodes g fromID")
  case None
  then show ?thesis by (simp add: AddDependency_def)
next
  case fromNode: (Some fromNode)
  show ?thesis
  proof (cases "graph_Nodes g toID")
    case None
    with fromNode show ?thesis by (simp add: AddDependency_def)
  next
    case (Some toNode)
    show ?thesis
    proof (cases "toID \<in> set (node_Dependencies fromNode)")
      case True
      with fromNode Some show ?thesis by (simp add: AddDependency_def)
    next
      case False
      show ?thesis
        using AddDependency_result[OF cl ks fromNode Some False] by (simp split: if_splits)
    qed
  qed
qed

lemma AddDependency_invariant:
  assumes cl: "closed_graph g" and ks: "set keys = dom (graph_Nodes g)"
    and ac: "acyclic (edges g)"
    and r: "AddDependency keys g fromID toID = Returned (err, g')"
  shows "closed_graph g' \<and> acyclic (edges g')"
proof (cases "graph_Nodes g fromID")
  case None
  with r cl ac show ?thesis by (simp add: AddDependency_def)
next
  case fromNode: (Some fromNode)
  show ?thesis
  proof (cases "graph_Nodes g toID")
    case None
    with fromNode r cl ac show ?thesis by (simp add: AddDependency_def)
  next
    case (Some toNode)
    show ?thesis
    proof (cases "toID \<in> set (node_Dependencies fromNode)")
      case True
      with fromNode Some r cl ac show ?thesis by (simp add: AddDependency_def)
    next
      case False
      note res = AddDependency_result[OF cl ks fromNode Some False]
      show ?thesis
      proof (cases "acyclic (insert (fromID, toID) (edges g))")
        case True
        from res True have "AddDependency keys g fromID toID =
            Returned (None, g\<lparr>graph_Nodes := (graph_Nodes g)(fromID \<mapsto>
              fromNode\<lparr>node_Dependencies := node_Dependencies fromNode @ [toID]\<rparr>)\<rparr>)"
          by (simp only: if_True)
        with r have g': "g' = g\<lparr>graph_Nodes := (graph_Nodes g)(fromID \<mapsto>
              fromNode\<lparr>node_Dependencies := node_Dependencies fromNode @ [toID]\<rparr>)\<rparr>" by simp
        show ?thesis
          unfolding g' using closed_add_dependency[OF cl fromNode Some]
            edges_add_dependency[OF fromNode] True by simp
      next
        case False
        with res have "AddDependency keys g fromID toID =
            Returned (Some (WouldCreateCycle fromID toID), g)"
          by (simp only: if_False)
        with r have "g' = g" by simp
        with cl ac show ?thesis by simp
      qed
    qed
  qed
qed

lemma AddNode_invariant:
  assumes cl: "closed_graph g" and ac: "acyclic (edges g)" and nd: "node_Dependencies node = []"
  shows "closed_graph (snd (AddNode g node)) \<and> acyclic (edges (snd (AddNode g node)))"
proof (cases "graph_Nodes g (node_ID node)")
  case None
  have e: "edges (g\<lparr>graph_Nodes := (graph_Nodes g)(node_ID node \<mapsto> node)\<rparr>) = edges g"
    using None nd by (auto simp: edges_def split: if_splits)
  have c: "closed_graph (g\<lparr>graph_Nodes := (graph_Nodes g)(node_ID node \<mapsto> node)\<rparr>)"
    using cl None nd unfolding closed_graph_def ran_def
    by (auto split: if_splits)
  show ?thesis using None e c ac by (simp add: AddNode_def)
next
  case (Some n)
  with cl ac show ?thesis by (simp add: AddNode_def)
qed

lemma built_invariant: "built g \<Longrightarrow> closed_graph g \<and> acyclic (edges g)"
proof (induction rule: built.induct)
  case built_NewGraph
  show ?case by (simp add: closed_graph_def NewGraph_def edges_def acyclic_def)
next
  case (built_AddNode g node)
  then show ?case using AddNode_invariant by blast
next
  case (built_AddDependency g keys fromID toID err g')
  then show ?case using AddDependency_invariant[of g keys fromID toID err g']
    by (simp add: key_order_def)
next
  case (built_MarkEntryPoint g nodeID)
  have "graph_Nodes (snd (MarkEntryPoint g nodeID)) = graph_Nodes g"
    by (simp add: MarkEntryPoint_def split: option.splits)
  then have "closed_graph (snd (MarkEntryPoint g nodeID)) = closed_graph g"
    and "edges (snd (MarkEntryPoint g nodeID)) = edges g"
    by (simp_all add: closed_graph_def edges_def)
  with built_MarkEntryPoint.IH show ?case by simp
qed

text \<open>The graph \<open>graph_ab\<close> is what three calls build.\<close>

lemma graph_ab_built_from:
  "AddDependency [''a'', ''b''] (snd (AddNode (snd (AddNode NewGraph node_a)) node_b)) ''a'' ''b''
     = Returned (None, graph_ab)"
  by (simp add: AddDependency_def AddNode_def NewGraph_def node_a_def node_b_def graph_ab_def
      hasCycle_def Let_def fun_upd_twist)

text \<open>
  C1, as the claim states it, fails: \<open>AddNode\<close> stores the node it is handed as it is,
  without a cycle check. A node that lists itself among its dependencies is accepted,
  and \<open>hasCycle\<close> is true after the call.
\<close>

theorem AddNode_with_dependency_counterexample:
  "AddNode NewGraph (node_a\<lparr>node_Dependencies := [''a'']\<rparr>) = (None, graph_self) \<and>
   hasCycle [''a''] graph_self = Returned True"
  by (simp add: graph_self_def AddNode_def NewGraph_def node_a_def hasCycle_def)

text \<open>
  C1, amended. Take any graph built from the empty graph by calls of \<open>AddDependency\<close>
  (and \<open>MarkEntryPoint\<close>) and by calls of \<open>AddNode\<close> whose node carries no
  dependencies, and any order in which the range over the node map yields the keys. Then \<open>hasCycle\<close> returns false on it (it
  neither panics nor exhausts its depth bound); every further \<open>AddDependency\<close> returns;
  when it fails with "would create a cycle" the graph is the one before the call; and it
  does fail so, leaving the graph unchanged, whenever both nodes exist, the edge is new
  and the edge relation with the new edge has a cycle. The graph after the call is built
  again, so the same holds after every call.
\<close>

theorem built_acyclic:
  assumes "built g" and "key_order g keys"
  shows "hasCycle keys g = Returned False \<and>
    (\<exists>err g'. AddDependency keys g fromID toID = Returned (err, g') \<and>
       (err = Some (WouldCreateCycle fromID toID) \<longrightarrow> g' = g) \<and>
       (fromID \<in> dom (graph_Nodes g) \<and> toID \<in> dom (graph_Nodes g) \<and>
        (fromID, toID) \<notin> edges g \<and> \<not> acyclic (insert (fromID, toID) (edges g)) \<longrightarrow>
          err = Some (WouldCreateCycle fromID toID) \<and> g' = g))"
proof -
  have cl: "closed_graph g" and ac: "acyclic (edges g)"
    using built_invariant[OF assms(1)] by simp_all
  have ks: "set keys = dom (graph_Nodes g)" using assms(2) by (simp add: key_order_def)
  have hc: "hasCycle keys g = Returned False"
    using hasCycle_correct[OF cl ks] ac by simp
  obtain err g' where r: "AddDependency keys g fromID toID = Returned (err, g')"
    using AddDependency_returns[OF cl ks] by blast
  have unchanged: "g' = g" if "err = Some (WouldCreateCycle fromID toID)"
    using r that
    by (auto simp: AddDependency_def Let_def map_upd_triv
        split: option.splits if_splits outcome.splits)
  have rejected: "err = Some (WouldCreateCycle fromID toID) \<and> g' = g"
    if "from": "fromID \<in> dom (graph_Nodes g)" and to: "toID \<in> dom (graph_Nodes g)"
      and new: "(fromID, toID) \<notin> edges g" and cyc: "\<not> acyclic (insert (fromID, toID) (edges g))"
  proof -
    from "from" obtain fromNode where fn: "graph_Nodes g fromID = Some fromNode" by blast
    from to obtain toNode where tn: "graph_Nodes g toID = Some toNode" by blast
    from new fn have "toID \<notin> set (node_Dependencies fromNode)" by (simp add: edges_iff)
    from AddDependency_result[OF cl ks fn tn this] cyc
    have "AddDependency keys g fromID toID = Returned (Some (WouldCreateCycle fromID toID), g)"
      by (simp only: if_False)
    with r show ?thesis by simp
  qed
  show ?thesis using hc r unchanged rejected by blast
qed

theorem built_acyclic_witness:
  "hasCycle [''b'', ''a''] graph_ab = Returned False \<and>
   AddDependency [''b'', ''a''] graph_ab ''b'' ''a'' =
     Returned (Some (WouldCreateCycle ''b'' ''a''), graph_ab)"
proof -
  have b0: "built (snd (AddNode (snd (AddNode NewGraph node_a)) node_b))"
    by (intro built_AddNode built_NewGraph) (simp_all add: node_a_def node_b_def)
  have k0: "key_order (snd (AddNode (snd (AddNode NewGraph node_a)) node_b)) [''a'', ''b'']"
    by (auto simp: key_order_def AddNode_def NewGraph_def node_a_def node_b_def)
  have b: "built graph_ab"
    using b0 k0 graph_ab_built_from by (rule built_AddDependency)
  have k: "key_order graph_ab [''b'', ''a'']"
    by (auto simp: key_order_def graph_ab_def)
  have ab: "(''a'', ''b'') \<in> edges graph_ab"
    by (simp add: edges_def graph_ab_def node_a_def)
  have ba: "(''b'', ''a'') \<notin> edges graph_ab"
    by (simp add: edges_def graph_ab_def node_b_def)
  have cyc: "\<not> acyclic (insert (''b'', ''a'') (edges graph_ab))"
    using ab by (simp add: acyclic_insert r_into_rtrancl)
  have d: "''b'' \<in> dom (graph_Nodes graph_ab)" "''a'' \<in> dom (graph_Nodes graph_ab)"
    by (simp_all add: graph_ab_def)
  from built_acyclic[OF b k, of "''b''" "''a''"] d ba cyc show ?thesis by auto
qed

subsection \<open>The order TopologicalSort returns\<close>

text \<open>
  The post-order traversal on an acyclic graph: a dependency that is already visited
  when its dependent looks at it is finished (were it still in progress, it would reach
  the dependent and close a cycle), so every node is appended after all its
  dependencies.
\<close>

lemma from_before_to_split:
  "from_before_to E order \<Longrightarrow> order = xs @ a # ys \<Longrightarrow> (a, b) \<in> E \<Longrightarrow> b \<in> set ys"
proof (induction xs arbitrary: order)
  case Nil
  then show ?case by auto
next
  case (Cons x xs)
  then show ?case by auto
qed

lemma topo_inv_finish:
  assumes inv: "topo_inv g V' R'" and xV: "x \<in> V'" and xR: "x \<notin> set R'"
    and succ: "\<forall>c. (x, c) \<in> edges g \<longrightarrow> c \<in> set R'"
  shows "topo_inv g V' (R' @ [x])"
proof -
  have a: "set R' \<subseteq> V'" and b: "V' \<subseteq> dom (graph_Nodes g)" and c: "distinct R'"
    and d: "from_before_to (edges g) (rev R')"
    using inv unfolding topo_inv_def by blast+
  have "set (R' @ [x]) \<subseteq> V'" using a xV by simp
  moreover have "distinct (R' @ [x])" using c xR by simp
  moreover have "from_before_to (edges g) (rev (R' @ [x]))" using d succ by simp
  ultimately show ?thesis unfolding topo_inv_def using b by blast
qed

lemma topo_inv_enter:
  assumes inv: "topo_inv g V R" and xD: "x \<in> dom (graph_Nodes g)"
  shows "topo_inv g (insert x V) R"
proof -
  have a: "set R \<subseteq> V" and b: "V \<subseteq> dom (graph_Nodes g)" and c: "distinct R"
    and d: "from_before_to (edges g) (rev R)"
    using inv unfolding topo_inv_def by blast+
  have "set R \<subseteq> insert x V" using a by blast
  moreover have "insert x V \<subseteq> dom (graph_Nodes g)" using b xD by blast
  ultimately show ?thesis unfolding topo_inv_def using c d by blast
qed

lemma dfs_deps_step:
  assumes dfs_ok: "\<And>x V R. x \<in> dom (graph_Nodes g) \<Longrightarrow> x \<notin> V \<Longrightarrow> topo_inv g V R \<Longrightarrow>
      \<forall>p \<in> V - set R. (p, x) \<in> (edges g)\<^sup>* \<Longrightarrow> card (dom (graph_Nodes g) - V) \<le> n \<Longrightarrow>
      topo_post g V R {x} (dfs n g x (V, R))"
    and cl: "closed_graph g" and ac: "acyclic (edges g)" and fin: "finite (dom (graph_Nodes g))"
  shows "topo_inv g V R \<Longrightarrow> x \<in> V - set R \<Longrightarrow> \<forall>p \<in> V - set R. (p, x) \<in> (edges g)\<^sup>* \<Longrightarrow>
      \<forall>d \<in> set ds. (x, d) \<in> edges g \<Longrightarrow> card (dom (graph_Nodes g) - V) \<le> n \<Longrightarrow>
      topo_post g V R (set ds) (dfs_deps n g ds (V, R))"
proof (induction ds arbitrary: V R)
  case Nil
  then show ?case by (simp add: topo_post_def)
next
  case (Cons d ds)
  have xd: "(x, d) \<in> edges g" using Cons.prems(4) by simp
  have rest: "\<forall>d \<in> set ds. (x, d) \<in> edges g" using Cons.prems(4) by simp
  show ?case
  proof (cases "d \<in> V")
    case False
    have dD: "d \<in> dom (graph_Nodes g)" using cl xd by (rule closed_graph_edge)
    have rd: "\<forall>p \<in> V - set R. (p, d) \<in> (edges g)\<^sup>*"
      using Cons.prems(3) xd by (meson rtrancl.rtrancl_into_rtrancl)
    have post: "topo_post g V R {d} (dfs n g d (V, R))"
      using dD False Cons.prems(1) rd Cons.prems(5) by (rule dfs_ok)
    then obtain V' R' where r: "dfs n g d (V, R) = Returned (V', R')"
      by (auto simp: topo_post_def split: outcome.splits)
    from post r have VV': "V \<subseteq> V'" and prog: "V' - set R' = V - set R"
      and dR': "d \<in> set R'" and inv': "topo_inv g V' R'"
      by (simp_all add: topo_post_def)
    have x': "x \<in> V' - set R'" using prog Cons.prems(2) by simp
    have reach': "\<forall>p \<in> V' - set R'. (p, x) \<in> (edges g)\<^sup>*" using prog Cons.prems(3) by simp
    have card': "card (dom (graph_Nodes g) - V') \<le> n"
      using fin VV' Cons.prems(5) by (rule card_diff_mono)
    have IH: "topo_post g V' R' (set ds) (dfs_deps n g ds (V', R'))"
      using inv' x' reach' rest card' by (rule Cons.IH)
    then obtain V'' R'' where r2: "dfs_deps n g ds (V', R') = Returned (V'', R'')"
      by (auto simp: topo_post_def split: outcome.splits)
    from IH r2 have V'V'': "V' \<subseteq> V''" and prog2: "V'' - set R'' = V' - set R'"
      and dsR: "set ds \<subseteq> set R''" and inv'': "topo_inv g V'' R''"
      by (simp_all add: topo_post_def)
    have "set R' \<subseteq> V'" using inv' unfolding topo_inv_def by blast
    with dR' V'V'' prog2 have "d \<in> set R''" by blast
    moreover have "V \<subseteq> V''" using VV' V'V'' by blast
    moreover have "V'' - set R'' = V - set R" using prog prog2 by simp
    ultimately show ?thesis
      using False r r2 dsR inv'' by (simp add: topo_post_def)
  next
    case True
    have dR: "d \<in> set R"
    proof (rule ccontr)
      assume "d \<notin> set R"
      with True have "d \<in> V - set R" by simp
      with Cons.prems(3) have "(d, x) \<in> (edges g)\<^sup>*" by blast
      with xd have "(x, x) \<in> (edges g)\<^sup>+" by (rule rtrancl_into_trancl2)
      with ac show False by (auto simp: acyclic_def)
    qed
    have IH: "topo_post g V R (set ds) (dfs_deps n g ds (V, R))"
      using Cons.prems(1) Cons.prems(2) Cons.prems(3) rest Cons.prems(5) by (rule Cons.IH)
    then obtain V'' R'' where r2: "dfs_deps n g ds (V, R) = Returned (V'', R'')"
      by (auto simp: topo_post_def split: outcome.splits)
    from IH r2 have VV'': "V \<subseteq> V''" and prog2: "V'' - set R'' = V - set R"
      and dsR: "set ds \<subseteq> set R''" and inv'': "topo_inv g V'' R''"
      by (simp_all add: topo_post_def)
    have "d \<in> set R''" using dR True VV'' prog2 by blast
    then show ?thesis
      using True r2 VV'' prog2 dsR inv'' by (simp add: topo_post_def)
  qed
qed

lemma dfs_step:
  assumes deps_ok: "\<And>x V R ds. topo_inv g V R \<Longrightarrow> x \<in> V - set R \<Longrightarrow>
      \<forall>p \<in> V - set R. (p, x) \<in> (edges g)\<^sup>* \<Longrightarrow>
      \<forall>d \<in> set ds. (x, d) \<in> edges g \<Longrightarrow> card (dom (graph_Nodes g) - V) \<le> n \<Longrightarrow>
      topo_post g V R (set ds) (dfs_deps n g ds (V, R))"
    and fin: "finite (dom (graph_Nodes g))"
    and xD: "x \<in> dom (graph_Nodes g)" and xV: "x \<notin> V" and inv: "topo_inv g V R"
    and reach: "\<forall>p \<in> V - set R. (p, x) \<in> (edges g)\<^sup>*"
    and card: "card (dom (graph_Nodes g) - V) \<le> Suc n"
  shows "topo_post g V R {x} (dfs (Suc n) g x (V, R))"
proof -
  from xD obtain node where node: "graph_Nodes g x = Some node" by blast
  let ?ds = "node_Dependencies node"
  have RV: "set R \<subseteq> V" using inv unfolding topo_inv_def by blast
  have xR: "x \<notin> set R" using xV RV by blast
  have inv1: "topo_inv g (insert x V) R" using inv xD by (rule topo_inv_enter)
  have x1: "x \<in> insert x V - set R" using xR by simp
  have reach1: "\<forall>p \<in> insert x V - set R. (p, x) \<in> (edges g)\<^sup>*" using reach by blast
  have ed: "\<forall>d \<in> set ?ds. (x, d) \<in> edges g" using node by (simp add: edges_iff)
  have card1: "card (dom (graph_Nodes g) - insert x V) \<le> n"
    using fin xD xV card by (rule card_diff_insert)
  have post: "topo_post g (insert x V) R (set ?ds) (dfs_deps n g ?ds (insert x V, R))"
    using inv1 x1 reach1 ed card1 by (rule deps_ok)
  then obtain V' R' where r: "dfs_deps n g ?ds (insert x V, R) = Returned (V', R')"
    by (auto simp: topo_post_def split: outcome.splits)
  from post r have VV': "insert x V \<subseteq> V'" and prog: "V' - set R' = insert x V - set R"
    and sub: "set ?ds \<subseteq> set R'" and inv': "topo_inv g V' R'"
    by (simp_all add: topo_post_def)
  have xV': "x \<in> V'" using VV' by blast
  have xR': "x \<notin> set R'" using prog x1 by blast
  have succ: "\<forall>c. (x, c) \<in> edges g \<longrightarrow> c \<in> set R'"
    using sub node by (auto simp: edges_iff)
  have inv2: "topo_inv g V' (R' @ [x])" using inv' xV' xR' succ by (rule topo_inv_finish)
  have "V \<subseteq> V'" using VV' by blast
  moreover have "V' - set (R' @ [x]) = V - set R" using prog xV xR by auto
  ultimately show ?thesis
    using r node inv2 by (simp add: topo_post_def)
qed

lemma dfs_correct_aux:
  assumes cl: "closed_graph g" and ac: "acyclic (edges g)" and fin: "finite (dom (graph_Nodes g))"
  shows "\<forall>x V R. x \<in> dom (graph_Nodes g) \<longrightarrow> x \<notin> V \<longrightarrow> topo_inv g V R \<longrightarrow>
            (\<forall>p \<in> V - set R. (p, x) \<in> (edges g)\<^sup>*) \<longrightarrow> card (dom (graph_Nodes g) - V) \<le> n \<longrightarrow>
            topo_post g V R {x} (dfs n g x (V, R))"
proof (induction n)
  case 0
  show ?case
  proof (intro allI impI)
    fix x V R
    assume "x \<in> dom (graph_Nodes g)" "x \<notin> V" "card (dom (graph_Nodes g) - V) \<le> 0"
    then have "x \<in> dom (graph_Nodes g) - V" "card (dom (graph_Nodes g) - V) = 0" by simp_all
    moreover have "finite (dom (graph_Nodes g) - V)" using fin by simp
    ultimately have False by auto
    then show "topo_post g V R {x} (dfs 0 g x (V, R))" ..
  qed
next
  case (Suc n)
  have deps_ok: "topo_post g V R (set ds) (dfs_deps n g ds (V, R))"
    if "topo_inv g V R" "x \<in> V - set R" "\<forall>p \<in> V - set R. (p, x) \<in> (edges g)\<^sup>*"
      "\<forall>d \<in> set ds. (x, d) \<in> edges g" "card (dom (graph_Nodes g) - V) \<le> n"
    for x V R ds
    by (rule dfs_deps_step[OF _ cl ac fin that(1) that(2) that(3) that(4) that(5)])
       (use Suc.IH in blast)
  show ?case
  proof (intro allI impI)
    fix x V R
    assume a: "x \<in> dom (graph_Nodes g)" "x \<notin> V" "topo_inv g V R"
      "\<forall>p \<in> V - set R. (p, x) \<in> (edges g)\<^sup>*" "card (dom (graph_Nodes g) - V) \<le> Suc n"
    show "topo_post g V R {x} (dfs (Suc n) g x (V, R))"
    proof (rule dfs_step)
      show "topo_post g V' R' (set ds) (dfs_deps n g ds (V', R'))"
        if "topo_inv g V' R'" "x' \<in> V' - set R'" "\<forall>p \<in> V' - set R'. (p, x') \<in> (edges g)\<^sup>*"
          "\<forall>d \<in> set ds. (x', d) \<in> edges g" "card (dom (graph_Nodes g) - V') \<le> n"
        for x' V' R' ds
        using that by (rule deps_ok)
    qed (rule fin a)+
  qed
qed

lemma dfs_nodes_correct:
  assumes cl: "closed_graph g" and ac: "acyclic (edges g)" and fin: "finite (dom (graph_Nodes g))"
    and n: "card (dom (graph_Nodes g)) \<le> n"
  shows "set ks \<subseteq> dom (graph_Nodes g) \<Longrightarrow> topo_inv g V R \<Longrightarrow> V = set R \<Longrightarrow>
     \<exists>V' R'. dfs_nodes n g ks (V, R) = Returned (V', R') \<and> V' = set R' \<and>
        set ks \<subseteq> V' \<and> V \<subseteq> V' \<and> topo_inv g V' R'"
proof (induction ks arbitrary: V R)
  case Nil
  then show ?case by simp
next
  case (Cons k ks)
  have kD: "k \<in> dom (graph_Nodes g)" and ks: "set ks \<subseteq> dom (graph_Nodes g)"
    using Cons.prems(1) by simp_all
  show ?case
  proof (cases "k \<in> V")
    case True
    from Cons.IH[OF ks Cons.prems(2) Cons.prems(3)] True show ?thesis by auto
  next
    case False
    have "card (dom (graph_Nodes g) - V) \<le> card (dom (graph_Nodes g))"
      using fin by (simp add: card_mono)
    with n have cardV: "card (dom (graph_Nodes g) - V) \<le> n" by simp
    have none: "\<forall>p \<in> V - set R. (p, k) \<in> (edges g)\<^sup>*" using Cons.prems(3) by simp
    have post: "topo_post g V R {k} (dfs n g k (V, R))"
      using dfs_correct_aux[OF cl ac fin, of n] kD False Cons.prems(2) none cardV by blast
    then obtain V' R' where r: "dfs n g k (V, R) = Returned (V', R')"
      by (auto simp: topo_post_def split: outcome.splits)
    from post r have VV': "V \<subseteq> V'" and prog: "V' - set R' = V - set R"
      and kR': "k \<in> set R'" and inv': "topo_inv g V' R'"
      by (simp_all add: topo_post_def)
    have "set R' \<subseteq> V'" using inv' unfolding topo_inv_def by blast
    with prog Cons.prems(3) have eq: "V' = set R'" by blast
    from Cons.IH[OF ks inv' eq] obtain V'' R'' where
      r2: "dfs_nodes n g ks (V', R') = Returned (V'', R'')" and eq2: "V'' = set R''"
      and sub: "set ks \<subseteq> V''" and V'V'': "V' \<subseteq> V''" and inv'': "topo_inv g V'' R''"
      by blast
    have "k \<in> V''" using kR' eq V'V'' by blast
    moreover have "V \<subseteq> V''" using VV' V'V'' by blast
    ultimately show ?thesis
      using False r r2 eq2 sub inv'' by simp
  qed
qed

lemma built_entry_points:
  "built g \<Longrightarrow> set (graph_EntryPoints g) \<subseteq> dom (graph_Nodes g)"
proof (induction rule: built.induct)
  case built_NewGraph
  show ?case by (simp add: NewGraph_def)
next
  case (built_AddNode g node)
  then show ?case by (auto simp: AddNode_def)
next
  case (built_AddDependency g keys fromID toID err g')
  then show ?case
    by (auto simp: AddDependency_def Let_def split: option.splits if_splits outcome.splits)
next
  case (built_MarkEntryPoint g nodeID)
  then show ?case by (auto simp: MarkEntryPoint_def split: option.splits)
qed

text \<open>
  What \<open>TopologicalSort\<close> does on every built graph, whatever orders the two ranges
  over the node map take: it succeeds (no panic, the depth bound is never reached) and
  returns every node exactly once, and for every edge from \<open>a\<close> to \<open>b\<close> (\<open>a\<close>
  depends on \<open>b\<close>) the node \<open>a\<close> stands before \<open>b\<close>.
\<close>

lemma TopologicalSort_order:
  assumes b: "built g" and k: "key_order g keys" and k': "key_order g keys'"
  shows "\<exists>order. TopologicalSort keys keys' g = Returned (order, None) \<and>
     distinct order \<and> set order = dom (graph_Nodes g) \<and>
     (\<forall>a b. (a, b) \<in> edges g \<longrightarrow> (\<exists>xs ys zs. order = xs @ a # ys @ b # zs))"
proof -
  have cl: "closed_graph g" and ac: "acyclic (edges g)"
    using built_invariant[OF b] by simp_all
  have ks: "set keys = dom (graph_Nodes g)" using k by (simp add: key_order_def)
  have ks': "set keys' = dom (graph_Nodes g)" using k' by (simp add: key_order_def)
  have fin: "finite (dom (graph_Nodes g))" using ks[symmetric] by simp
  have n: "card (dom (graph_Nodes g)) \<le> length keys'"
    using ks'[symmetric] by (simp add: card_length)
  have hc: "hasCycle keys g = Returned False"
    using hasCycle_correct[OF cl ks] ac by simp
  have inv0: "topo_inv g {} []" by (simp add: topo_inv_def)
  from dfs_nodes_correct[OF cl ac fin n built_entry_points[OF b] inv0]
  obtain V1 R1 where r1: "dfs_nodes (length keys') g (graph_EntryPoints g) ({}, []) = Returned (V1, R1)"
    and eq1: "V1 = set R1" and inv1: "topo_inv g V1 R1"
    by auto
  have sub: "set keys' \<subseteq> dom (graph_Nodes g)" using ks' by simp
  from dfs_nodes_correct[OF cl ac fin n sub inv1 eq1]
  obtain V2 R2 where r2: "dfs_nodes (length keys') g keys' (V1, R1) = Returned (V2, R2)"
    and eq2: "V2 = set R2" and all: "set keys' \<subseteq> V2" and inv2: "topo_inv g V2 R2"
    by blast
  have res: "TopologicalSort keys keys' g = Returned (rev R2, None)"
    by (simp add: TopologicalSort_def hc r1 r2)
  have d: "distinct R2" and fb: "from_before_to (edges g) (rev R2)"
    and V2D: "V2 \<subseteq> dom (graph_Nodes g)"
    using inv2 unfolding topo_inv_def by blast+
  have s: "set (rev R2) = dom (graph_Nodes g)" using all V2D eq2 ks' by auto
  have ord: "\<exists>xs ys zs. rev R2 = xs @ a # ys @ b # zs" if e: "(a, b) \<in> edges g" for a b
  proof -
    from e have "a \<in> dom (graph_Nodes g)" by (auto simp: edges_iff)
    with s have "a \<in> set (rev R2)" by simp
    then obtain xs ys' where sp: "rev R2 = xs @ a # ys'" by (meson split_list)
    from from_before_to_split[OF fb sp e] obtain ys zs where "ys' = ys @ b # zs"
      by (meson split_list)
    with sp show ?thesis by blast
  qed
  from res d s ord show ?thesis by auto
qed

text \<open>
  C2. In \<open>graph_ab\<close> the node \<open>a\<close> depends on \<open>b\<close> (the edge goes from \<open>a\<close> to
  \<open>b\<close>). Whatever order the two ranges over the node map take, \<open>TopologicalSort\<close>
  succeeds and returns \<open>a\<close> before \<open>b\<close>: the node comes before the node it depends
  on. The post-order sequence \<open>b, a\<close> has every node after its dependencies, and the
  final reversal turns it around. By \<open>TopologicalSort_order\<close> this is so for every
  edge of every built graph.
\<close>

theorem TopologicalSort_dependents_first:
  "(''a'', ''b'') \<in> edges graph_ab \<and>
   TopologicalSort [''a'', ''b''] [''a'', ''b''] graph_ab = Returned ([''a'', ''b''], None) \<and>
   TopologicalSort [''a'', ''b''] [''b'', ''a''] graph_ab = Returned ([''a'', ''b''], None) \<and>
   TopologicalSort [''b'', ''a''] [''a'', ''b''] graph_ab = Returned ([''a'', ''b''], None) \<and>
   TopologicalSort [''b'', ''a''] [''b'', ''a''] graph_ab = Returned ([''a'', ''b''], None)"
  by (simp add: TopologicalSort_def hasCycle_def graph_ab_def node_a_def node_b_def edges_def)

section \<open>Properties of the builder\<close>

subsection \<open>The reason needsRebuild gives\<close>

lemma needsRebuild_deps_reason:
  "needsRebuild_deps e objInfo deps = Returned (rebuild, reason) \<Longrightarrow> reason \<noteq> []"
  by (induction deps) (auto split: sum.splits if_splits)

lemma needsRebuild_reason:
  assumes "needsRebuild e c objectFile dependencies commandHash = Returned (rebuild, reason)"
  shows "reason \<noteq> []"
  using assms
  by (auto simp: needsRebuild_def Let_def
      split: prod.splits if_splits list.splits sum.splits dest: needsRebuild_deps_reason)

text \<open>
  C9. Whenever \<open>needsRebuild\<close> returns, for any object file, dependency list (empty or
  not) and command hash, the reason it returns is not the empty string; so the test of
  the reason in \<open>scheduleCompilationTasks\<close> never takes its branch: the answer and the
  reason pass through unchanged and no warning is logged.
\<close>

theorem needsRebuild_reason_nonempty:
  assumes "needsRebuild e c objectFile dependencies commandHash = Returned (rebuild, reason)"
  shows "reason \<noteq> [] \<and>
    scheduleCompilationTasks_check e c sourceFile objectFile dependencies commandHash =
      Returned (rebuild, reason, [])"
  using assms needsRebuild_reason[OF assms]
  by (simp add: scheduleCompilationTasks_check_def)

theorem needsRebuild_reason_nonempty_witness:
  "needsRebuild env_built (NewCache ''cache.json'') ''a.o'' [''a.c''] ''h'' =
     Returned (True, ''cache indicates rebuild needed'') \<and>
   ''cache indicates rebuild needed'' \<noteq> [] \<and>
   scheduleCompilationTasks_check env_built (NewCache ''cache.json'') ''a.c'' ''a.o'' [''a.c''] ''h'' =
     Returned (True, ''cache indicates rebuild needed'', [])"
proof -
  have r: "needsRebuild env_built (NewCache ''cache.json'') ''a.o'' [''a.c''] ''h'' =
     Returned (True, ''cache indicates rebuild needed'')"
    by (simp add: needsRebuild_def NeedsRebuild.simps(1) GetEntry_def NewCache_def)
  from needsRebuild_reason_nonempty[OF r, of "''a.c''"] r show ?thesis by simp
qed

text \<open>
  With a dependency list that is not empty, \<open>needsRebuild\<close> returns unless the stat of
  the object file fails for another reason than its absence.
\<close>

lemma needsRebuild_deps_returns:
  "\<exists>r. needsRebuild_deps e (Inr objModTime) deps = Returned r"
  by (induction deps) (auto split: sum.splits)

lemma needsRebuild_returns:
  assumes "dependencies \<noteq> []"
    and "\<And>err. os_Stat e objectFile = Inl err \<Longrightarrow> IsNotExist err"
  shows "\<exists>r. needsRebuild e c objectFile dependencies commandHash = Returned r"
  using assms needsRebuild_deps_returns
  by (cases "os_Stat e objectFile")
     (auto simp: needsRebuild_def Let_def split: prod.splits list.splits sum.splits)

subsection \<open>Waiting for the compile tasks\<close>

lemma dependency_paths_closed:
  "set deps \<subseteq> dom (graph_Nodes g) \<Longrightarrow> \<exists>paths. dependency_paths g deps = Some paths"
  by (induction deps) auto

lemma closed_graph_dependency_paths:
  assumes "closed_graph g" and "graph_Nodes g nodeID = Some node"
  shows "\<exists>paths. dependency_paths g (node_Dependencies node) = Some paths"
proof -
  have "node \<in> ran (graph_Nodes g)" using assms(2) by (auto simp: ran_def)
  with assms(1) have "set (node_Dependencies node) \<subseteq> dom (graph_Nodes g)"
    by (simp add: closed_graph_def)
  then show ?thesis by (rule dependency_paths_closed)
qed

lemma UpdateEntry_allocated:
  assumes "entries_allocated c"
  shows "\<exists>err c'. UpdateEntry e c target deps h obj t = Returned (err, c') \<and>
           entries_allocated c' \<and>
           (\<forall>path. path \<noteq> target \<longrightarrow> fst (GetEntry c' path) = fst (GetEntry c path))"
proof (cases "os_Stat e target")
  case (Inl err)
  with assms show ?thesis by (simp add: UpdateEntry_def)
next
  case (Inr modTime)
  show ?thesis
  proof (cases "os_OpenCopy e target")
    case (OpenError err)
    with Inr assms show ?thesis by (simp add: UpdateEntry_def CalculateFileHash_def)
  next
    case (CopyError err)
    with Inr assms show ?thesis by (simp add: UpdateEntry_def CalculateFileHash_def)
  next
    case (Bytes content)
    show ?thesis
    proof (cases "cache_BuildCache c")
      case None
      with Inr Bytes show ?thesis
        by (simp add: UpdateEntry_def CalculateFileHash_def PutEntry_def GetEntry_def
            entries_allocated_def)
    next
      case (Some bc)
      with assms obtain entries where "bc_Entries bc = Some entries"
        by (auto simp: entries_allocated_def)
      with Some Inr Bytes show ?thesis
        by (simp add: UpdateEntry_def CalculateFileHash_def PutEntry_def GetEntry_def
            entries_allocated_def)
    qed
  qed
qed

lemma task_failed_iff:
  "task_failed task \<longleftrightarrow> \<not> task_CompleteCh task \<or> task_Error task \<noteq> None"
  by (simp add: task_failed_def WaitForTask_def)

lemma scheduleCompilationTasks_wait_result:
  assumes cl: "closed_graph g"
  shows "\<forall>task \<in> set tasks. task_SourceFile task \<in> dom (graph_Nodes g) \<Longrightarrow>
    entries_allocated c \<Longrightarrow>
    \<exists>c'. scheduleCompilationTasks_wait e g compilerName cFlags tasks
            (compiledCount, compilationErrors, c) =
          Returned (compiledCount + length tasks,
                    compilationErrors @ map failure_message (filter task_failed tasks), c') \<and>
         (\<forall>path. path \<notin> task_OutputFile ` {task \<in> set tasks. \<not> task_failed task} \<longrightarrow>
            fst (GetEntry c' path) = fst (GetEntry c path))"
proof (induction tasks arbitrary: compiledCount compilationErrors c)
  case Nil
  show ?case by simp
next
  case (Cons task rest)
  have rest: "\<forall>task \<in> set rest. task_SourceFile task \<in> dom (graph_Nodes g)"
    using Cons.prems(1) by simp
  show ?case
  proof (cases "task_failed task")
    case True
    let ?errs = "compilationErrors @ [failure_message task]"
    from Cons.IH[OF rest Cons.prems(2), of "Suc compiledCount" ?errs]
    obtain c' where
      r: "scheduleCompilationTasks_wait e g compilerName cFlags rest (Suc compiledCount, ?errs, c) =
            Returned (Suc compiledCount + length rest,
                      ?errs @ map failure_message (filter task_failed rest), c')"
      and fr: "\<forall>path. path \<notin> task_OutputFile ` {task \<in> set rest. \<not> task_failed task} \<longrightarrow>
            fst (GetEntry c' path) = fst (GetEntry c path)"
      by blast
    have step: "scheduleCompilationTasks_wait e g compilerName cFlags (task # rest)
            (compiledCount, compilationErrors, c) =
          scheduleCompilationTasks_wait e g compilerName cFlags rest (Suc compiledCount, ?errs, c)"
      using True
      by (auto simp: task_failed_def failure_message_def WaitForTask_def split: option.splits)
    have s: "{t \<in> set (task # rest). \<not> task_failed t} = {t \<in> set rest. \<not> task_failed t}"
      using True by auto
    show ?thesis
      unfolding step r s using True fr by simp
  next
    case False
    from Cons.prems(1) obtain sourceNode where
      sn: "graph_Nodes g (task_SourceFile task) = Some sourceNode" by auto
    from closed_graph_dependency_paths[OF cl sn] obtain paths where
      ps: "dependency_paths g (node_Dependencies sourceNode) = Some paths" by blast
    from UpdateEntry_allocated[OF Cons.prems(2), of e "task_OutputFile task"
        "task_SourceFile task # paths" "CalculateCommandHash e c compilerName cFlags"
        "task_OutputFile task" "task_EndTime task - task_StartTime task"]
    obtain err c1 where
      up: "UpdateEntry e c (task_OutputFile task) (task_SourceFile task # paths)
             (CalculateCommandHash e c compilerName cFlags) (task_OutputFile task)
             (task_EndTime task - task_StartTime task) = Returned (err, c1)"
      and al1: "entries_allocated c1"
      and fr1: "\<forall>path. path \<noteq> task_OutputFile task \<longrightarrow>
             fst (GetEntry c1 path) = fst (GetEntry c path)"
      by blast
    from Cons.IH[OF rest al1, of "Suc compiledCount" compilationErrors]
    obtain c' where
      r: "scheduleCompilationTasks_wait e g compilerName cFlags rest
            (Suc compiledCount, compilationErrors, c1) =
            Returned (Suc compiledCount + length rest,
                      compilationErrors @ map failure_message (filter task_failed rest), c')"
      and fr: "\<forall>path. path \<notin> task_OutputFile ` {task \<in> set rest. \<not> task_failed task} \<longrightarrow>
            fst (GetEntry c' path) = fst (GetEntry c1 path)"
      by blast
    have step: "scheduleCompilationTasks_wait e g compilerName cFlags (task # rest)
            (compiledCount, compilationErrors, c) =
          scheduleCompilationTasks_wait e g compilerName cFlags rest
            (Suc compiledCount, compilationErrors, c1)"
      using False sn ps up
      by (auto simp: task_failed_def WaitForTask_def GetNode_def split: if_splits)
    have frame: "fst (GetEntry c' path) = fst (GetEntry c path)"
      if "path \<notin> task_OutputFile ` {t \<in> set (task # rest). \<not> task_failed t}" for path
    proof -
      from that False have ne: "path \<noteq> task_OutputFile task" by auto
      from that have "path \<notin> task_OutputFile ` {t \<in> set rest. \<not> task_failed t}" by auto
      with fr have "fst (GetEntry c' path) = fst (GetEntry c1 path)" by blast
      also have "\<dots> = fst (GetEntry c path)" using ne fr1 by blast
      finally show ?thesis .
    qed
    show ?thesis
      unfolding step r using False frame by simp
  qed
qed

text \<open>
  What holds when the entries map of the cache can be assigned to, the graph is closed
  (every dependency is a node) and holds the source of every task: the loop waits for
  every task (the count of processed tasks grows by the number of tasks), the error
  messages it collects are those of the failed tasks, one each and in order, whatever
  failed before; the cache entry of a path is the one from before the loop unless the
  path is the output file of a task that succeeded; and \<open>scheduleCompilationTasks\<close>
  returns an error if and only if some task failed, the object files otherwise.
\<close>

lemma compilation_partial_failure:
  assumes "closed_graph g"
    and "\<forall>task \<in> set tasks. task_SourceFile task \<in> dom (graph_Nodes g)"
    and "entries_allocated c"
  shows "\<exists>c'.
    scheduleCompilationTasks_wait e g compilerName cFlags tasks (compiledCount, [], c) =
      Returned (compiledCount + length tasks,
                map failure_message (filter task_failed tasks), c') \<and>
    (\<forall>path. path \<notin> task_OutputFile ` {task \<in> set tasks. \<not> task_failed task} \<longrightarrow>
       fst (GetEntry c' path) = fst (GetEntry c path)) \<and>
    scheduleCompilationTasks_finish e g compilerName cFlags objectFiles tasks compiledCount c =
      Returned
        ((if \<exists>task \<in> set tasks. task_failed task
          then ([], Some (OsError False
                  (''compilation failed with '' @
                   decimal (length (filter task_failed tasks)) @ '' errors'')))
          else (objectFiles, None)),
         c')"
proof -
  from scheduleCompilationTasks_wait_result[OF assms, of e compilerName cFlags compiledCount "[]"]
  obtain c' where
    r: "scheduleCompilationTasks_wait e g compilerName cFlags tasks (compiledCount, [], c) =
      Returned (compiledCount + length tasks,
                map failure_message (filter task_failed tasks), c')"
    and fr: "\<forall>path. path \<notin> task_OutputFile ` {task \<in> set tasks. \<not> task_failed task} \<longrightarrow>
       fst (GetEntry c' path) = fst (GetEntry c path)"
    by auto
  have some: "(\<exists>task \<in> set tasks. task_failed task) \<longleftrightarrow> filter task_failed tasks \<noteq> []"
    by (simp add: filter_empty_conv)
  have fin: "scheduleCompilationTasks_finish e g compilerName cFlags objectFiles tasks compiledCount c =
      Returned
        ((if \<exists>task \<in> set tasks. task_failed task
          then ([], Some (OsError False
                  (''compilation failed with '' @
                   decimal (length (filter task_failed tasks)) @ '' errors'')))
          else (objectFiles, None)),
         c')"
    unfolding scheduleCompilationTasks_finish_def r some by simp
  from r fr fin show ?thesis by blast
qed

lemma graph_sources_built: "built graph_sources"
  unfolding graph_sources_def
  by (intro built_AddNode built_NewGraph) (simp_all add: node_a_c_def node_b_c_def)

text \<open>On a fresh cache: \<open>b.c\<close> fails, \<open>a.c\<close> is still compiled and recorded, and the build
  fails with one error.\<close>

lemma compilation_partial_failure_fresh_cache:
  "\<exists>c'. scheduleCompilationTasks_finish env_built graph_sources ''gcc'' [''-O2'']
           [''b.o'', ''a.o''] [task_b, task_a] 0 (NewCache ''cache.json'') =
         Returned (([], Some (OsError False ''compilation failed with 1 errors'')), c') \<and>
        fst (GetEntry c' ''b.o'') = None"
proof -
  have cl: "closed_graph graph_sources"
    using built_invariant[OF graph_sources_built] by simp
  have src: "\<forall>task \<in> set [task_b, task_a]. task_SourceFile task \<in> dom (graph_Nodes graph_sources)"
    by (simp add: task_a_def task_b_def graph_sources_def AddNode_def NewGraph_def
        node_a_c_def node_b_c_def)
  have al: "entries_allocated (NewCache ''cache.json'')"
    by (simp add: entries_allocated_def NewCache_def)
  have fa: "\<not> task_failed task_a" and fb: "task_failed task_b"
    by (simp_all add: task_failed_iff task_a_def task_b_def)
  have out: "''b.o'' \<notin> task_OutputFile ` {task \<in> set [task_b, task_a]. \<not> task_failed task}"
    using fa fb by (auto simp: task_a_def)
  have one: "decimal (length (filter task_failed [task_b, task_a])) = ''1''"
    using fa fb by (simp add: decimal.simps)
  from compilation_partial_failure[OF cl src al, of env_built "''gcc''" "[''-O2'']" 0
      "[''b.o'', ''a.o'']"]
  obtain c' where
    fin: "scheduleCompilationTasks_finish env_built graph_sources ''gcc'' [''-O2'']
           [''b.o'', ''a.o''] [task_b, task_a] 0 (NewCache ''cache.json'') =
         Returned
          ((if \<exists>task \<in> set [task_b, task_a]. task_failed task
            then ([], Some (OsError False
                  (''compilation failed with '' @
                   decimal (length (filter task_failed [task_b, task_a])) @ '' errors'')))
            else ([''b.o'', ''a.o''], None)),
           c')"
    and fr: "\<forall>path. path \<notin> task_OutputFile ` {task \<in> set [task_b, task_a]. \<not> task_failed task} \<longrightarrow>
       fst (GetEntry c' path) = fst (GetEntry (NewCache ''cache.json'') path)"
    by blast
  from fr out have "fst (GetEntry c' ''b.o'') = fst (GetEntry (NewCache ''cache.json'') ''b.o'')"
    by blast
  then have e: "fst (GetEntry c' ''b.o'') = None"
    by (simp add: GetEntry_def NewCache_def)
  have "scheduleCompilationTasks_finish env_built graph_sources ''gcc'' [''-O2'']
           [''b.o'', ''a.o''] [task_b, task_a] 0 (NewCache ''cache.json'') =
         Returned (([], Some (OsError False ''compilation failed with 1 errors'')), c')"
    unfolding fin one using fb by simp
  with e show ?thesis by blast
qed

text \<open>
  C8. The claim fails on a cache loaded from a cache file that holds the document
  \<open>{}\<close>. \<open>Load\<close> succeeds and leaves the cache \<open>cache_bare\<close>, whose entries map is nil
  (only the branch of \<open>Load\<close> for a missing file and the branch of \<open>PutEntry\<close> for a
  nil \<open>c.BuildCache\<close> allocate the map). With the tasks of \<open>b.c\<close> (failed) and \<open>a.c\<close>
  (succeeded), the loop records the failure of \<open>b.c\<close> and then panics in the
  \<open>UpdateEntry\<close> for \<open>a.o\<close>: \<open>scheduleCompilationTasks\<close> does not return, neither the
  build failure nor anything else.
\<close>

theorem compilation_panics_on_nil_entries:
  "Load env_bare_cache (NewCache ''cache.json'') = (None, cache_bare) \<and>
   UpdateEntry env_bare_cache cache_bare ''a.o'' [''a.c''] ''h'' ''a.o'' 2 = Panic \<and>
   scheduleCompilationTasks_wait env_bare_cache graph_sources ''gcc'' [''-O2'']
     [task_b, task_a] (0, [], cache_bare) = Panic \<and>
   scheduleCompilationTasks_finish env_bare_cache graph_sources ''gcc'' [''-O2'']
     [''b.o'', ''a.o''] [task_b, task_a] 0 cache_bare = Panic"
  by (simp add: Load_def UpdateEntry_def CalculateFileHash_def PutEntry_def
      scheduleCompilationTasks_finish_def WaitForTask_def GetNode_def
      task_a_def task_b_def graph_sources_def AddNode_def NewGraph_def node_a_c_def node_b_c_def
      cache_bare_def NewCache_def zero_BuildCache_def
      env_bare_cache_def env_built_def env_empty_def no_file_def)

end
